theory Spec2Isabelle
  imports Main "HOL-Library.Word" "HOL-Library.Multiset" "HOL-Library.List_Lexorder"
begin

unbundle bit_operations_syntax

section \<open>The kastore file format and store, embedded from \<^verbatim>\<open>src/c/kastore.c\<close>\<close>

text \<open>
  Conventions of the embedding.
  \<^item> A byte is an \<open>8 word\<close>; \<^verbatim>\<open>size_t\<close> and \<^verbatim>\<open>uint64_t\<close> are \<open>64 word\<close> (an LP64
    platform), so \<open>+\<close> and \<open>*\<close> wrap around as in C. The C \<^verbatim>\<open>int\<close>s of the source
    (type tags, flags, mode, versions) take part in no arithmetic and are HOL \<open>int\<close>s.
  \<^item> A pointer into a block of memory is modelled by the bytes from the address to the end
    of the block; reading \<open>n\<close> bytes through it is \<open>take n\<close>. A read past the end of a
    block (undefined in C) yields only the bytes that are there.
  \<^item> Integers are laid out in memory least significant byte first (\<^verbatim>\<open>memcpy\<close> on a
    little-endian host).
  \<^item> The allocator and the operating system do not fail on their own: \<^verbatim>\<open>malloc\<close>,
    \<^verbatim>\<open>calloc\<close>, \<^verbatim>\<open>realloc\<close>, \<^verbatim>\<open>fseek\<close>, \<^verbatim>\<open>stat\<close>, \<^verbatim>\<open>mmap\<close>, \<^verbatim>\<open>fclose\<close> succeed, and
    \<^verbatim>\<open>fread\<close>, \<^verbatim>\<open>fwrite\<close> fail only as the C standard prescribes for the given sizes
    (a short file, a zero size). A file is its content, a list of bytes; the file on
    disk is passed to \<open>kastore_open\<close> and returned by \<open>kastore_close\<close>.
  \<^item> A function that returns an error code and updates \<^verbatim>\<open>*self\<close> returns the pair of the
    code (\<open>None\<close> is 0, success) and the updated store.
\<close>

type_synonym byte = "8 word"
type_synonym size_t = "64 word"

subsection \<open>What \<^verbatim>\<open>kastore.h\<close> declares\<close>

text \<open>The error codes \<^verbatim>\<open>KAS_ERR_*\<close> named in the source.\<close>

datatype kas_error =
    KAS_ERR_GENERIC
  | KAS_ERR_IO
  | KAS_ERR_BAD_MODE
  | KAS_ERR_NO_MEMORY
  | KAS_ERR_BAD_FILE_FORMAT
  | KAS_ERR_VERSION_TOO_OLD
  | KAS_ERR_VERSION_TOO_NEW
  | KAS_ERR_BAD_TYPE
  | KAS_ERR_EMPTY_KEY
  | KAS_ERR_DUPLICATE_KEY
  | KAS_ERR_KEY_NOT_FOUND

type_synonym ret = "kas_error option"

text \<open>
  Modelled from the spec: the header \<^verbatim>\<open>kastore.h\<close> is not among the sources. The sizes of
  the header and of an item descriptor (64 bytes each), the array alignment (8) and the
  number of type tags (8, the tags 0..7) are the values the specification gives.
\<close>

abbreviation (input) KAS_HEADER_SIZE :: "'a::numeral" where
  "KAS_HEADER_SIZE \<equiv> 64"

abbreviation (input) KAS_ITEM_DESCRIPTOR_SIZE :: "'a::numeral" where
  "KAS_ITEM_DESCRIPTOR_SIZE \<equiv> 64"

abbreviation (input) KAS_ARRAY_ALIGN :: "'a::numeral" where
  "KAS_ARRAY_ALIGN \<equiv> 8"

abbreviation (input) KAS_NUM_TYPES :: "'a::numeral" where
  "KAS_NUM_TYPES \<equiv> 8"

text \<open>
  The macros of \<^verbatim>\<open>kastore.h\<close> whose values neither the sources nor the specification give
  are parameters of the model: the magic string, the format version, the two mode
  constants and the flag \<^verbatim>\<open>KAS_NO_MMAP\<close>.
\<close>

record kas_consts =
  KAS_MAGIC :: "byte list"
  KAS_FILE_VERSION_MAJOR :: int
  KAS_FILE_VERSION_MINOR :: int
  KAS_READ :: int
  KAS_WRITE :: int
  KAS_NO_MMAP :: int

text \<open>
  What the code relies on: the magic is a string of 8 non-zero characters, the major
  version fits the 16-bit header field, and the two modes differ from each other.
\<close>

definition consts_ok :: "kas_consts \<Rightarrow> bool" where
  "consts_ok c =
     (length (KAS_MAGIC c) = 8 \<and> list_all (\<lambda>b. b \<noteq> 0) (KAS_MAGIC c) \<and>
      0 \<le> KAS_FILE_VERSION_MAJOR c \<and> KAS_FILE_VERSION_MAJOR c < 65536 \<and>
      KAS_READ c \<noteq> KAS_WRITE c)"

text \<open>The struct \<^verbatim>\<open>kaitem_t\<close>, with the fields the source uses.\<close>

record kaitem =
  type :: int
  key_start :: size_t
  key_len :: size_t
  array_start :: size_t
  array_len :: size_t
  key :: "byte list"
  array :: "byte list"

text \<open>
  The struct \<^verbatim>\<open>kastore_t\<close>. \<open>file_p\<close> is the stream \<^verbatim>\<open>file\<close>: \<open>None\<close> is \<^verbatim>\<open>NULL\<close>, \<open>Some f\<close> an
  open stream on a file whose content is (read mode) or has so far become (write
  mode) \<open>f\<close>. \<open>read_buffer\<close> is \<open>None\<close> for \<^verbatim>\<open>NULL\<close>. \<open>items\<close> is the allocated array
  (\<open>[]\<close> for \<^verbatim>\<open>NULL\<close>), of which the first \<open>num_items\<close> are in use.
\<close>

record kastore =
  mode :: int
  flags :: int
  file_version :: "int \<times> int"
  num_items :: size_t
  items :: "kaitem list"
  file_p :: "byte list option"
  file_size :: size_t
  read_buffer :: "byte list option"

text \<open>\<^verbatim>\<open>memset(self, 0, sizeof(*self))\<close>\<close>

definition kastore_zero :: kastore where
  "kastore_zero =
     \<lparr>mode = 0, flags = 0, file_version = (0, 0), num_items = 0, items = [],
      file_p = None, file_size = 0, read_buffer = None\<rparr>"

text \<open>\<^verbatim>\<open>memset(new_item, 0, sizeof(*new_item))\<close>, and an element of a \<^verbatim>\<open>calloc\<close>ed array\<close>

definition kaitem_zero :: kaitem where
  "kaitem_zero =
     \<lparr>type = 0, key_start = 0, key_len = 0, array_start = 0, array_len = 0,
      key = [], array = []\<rparr>"

text \<open>The items in use, \<^verbatim>\<open>self->items[0 .. self->num_items - 1]\<close>.\<close>

definition active_items :: "kastore \<Rightarrow> kaitem list" where
  "active_items self = take (unat (num_items self)) (items self)"

subsection \<open>Integers in memory\<close>

fun le_encode :: "nat \<Rightarrow> nat \<Rightarrow> byte list" where
  "le_encode 0 v = []"
| "le_encode (Suc n) v = of_nat (v mod 256) # le_encode n (v div 256)"

fun le_decode :: "byte list \<Rightarrow> nat" where
  "le_decode [] = 0"
| "le_decode (b # bs) = unat b + 256 * le_decode bs"

text \<open>\<^verbatim>\<open>memcpy(&x, p, n)\<close> for an unsigned integer \<open>x\<close> of \<open>n\<close> bytes\<close>

definition load_u16 :: "byte list \<Rightarrow> 16 word" where
  "load_u16 p = of_nat (le_decode (take 2 p))"

definition load_u32 :: "byte list \<Rightarrow> 32 word" where
  "load_u32 p = of_nat (le_decode (take 4 p))"

definition load_u64 :: "byte list \<Rightarrow> 64 word" where
  "load_u64 p = of_nat (le_decode (take 8 p))"

definition load_u8 :: "byte list \<Rightarrow> 8 word" where
  "load_u8 p = of_nat (le_decode (take 1 p))"

subsection \<open>Type registry and key order\<close>

text \<open>
  \<^verbatim>\<open>type_size\<close>: the table of element widths. The source asserts \<^verbatim>\<open>type < KAS_NUM_TYPES\<close>;
  every caller has checked the tag before, and outside the table the model gives 0.
\<close>

definition type_size :: "int \<Rightarrow> size_t" where
  "type_size t =
     (if 0 \<le> t \<and> t < KAS_NUM_TYPES then [1, 1, 4, 4, 8, 8, 4, 8] ! nat t else 0)"

text \<open>
  \<^verbatim>\<open>memcmp\<close> on unsigned bytes, of which only the sign is used: the first \<open>n\<close> bytes of
  the two blocks are compared from the left.
\<close>

fun memcmp_bytes :: "byte list \<Rightarrow> byte list \<Rightarrow> int" where
  "memcmp_bytes (a # as) (b # bs) =
     (if a < b then - 1 else if b < a then 1 else memcmp_bytes as bs)"
| "memcmp_bytes _ _ = 0"

definition memcmp :: "byte list \<Rightarrow> byte list \<Rightarrow> nat \<Rightarrow> int" where
  "memcmp s1 s2 n = memcmp_bytes (take n s1) (take n s2)"

definition compare_items :: "kaitem \<Rightarrow> kaitem \<Rightarrow> int" where
  "compare_items ia ib =
     (let len = (if key_len ia < key_len ib then key_len ia else key_len ib);
          ret = memcmp (key ia) (key ib) (unat len)
      in if ret = 0
         then (if key_len ia > key_len ib then 1 else 0) -
              (if key_len ia < key_len ib then 1 else 0)
         else ret)"

subsection \<open>Writing\<close>

text \<open>
  \<^verbatim>\<open>fwrite(ptr, size, 1, file)\<close>: appends \<open>sz\<close> bytes and returns 1, but returns 0
  when \<open>sz\<close> is 0. The result is the count and the stream.
\<close>

definition fwrite1 :: "byte list \<Rightarrow> nat \<Rightarrow> byte list option \<Rightarrow> nat \<times> byte list option" where
  "fwrite1 ptr sz f =
     (if sz = 0 then (0, f) else (1, map_option (\<lambda>old. old @ take sz ptr) f))"

definition kastore_write_header :: "kas_consts \<Rightarrow> kastore \<Rightarrow> ret \<times> kastore" where
  "kastore_write_header c self =
     (let version_major = (word_of_int (KAS_FILE_VERSION_MAJOR c) :: 16 word);
          version_minor = (word_of_int (KAS_FILE_VERSION_MINOR c) :: 16 word);
          num_items32 = (ucast (num_items self) :: 32 word);
          file_size64 = file_size self;
          header = take 8 (KAS_MAGIC c)
                   @ le_encode 2 (unat version_major)
                   @ le_encode 2 (unat version_minor)
                   @ le_encode 4 (unat num_items32)
                   @ le_encode 8 (unat file_size64)
                   @ replicate 40 0
      in case fwrite1 header KAS_HEADER_SIZE (file_p self) of
           (cnt, f') \<Rightarrow>
             if cnt \<noteq> 1 then (Some KAS_ERR_IO, self\<lparr>file_p := f'\<rparr>)
             else (None, self\<lparr>file_p := f'\<rparr>))"

text \<open>The two loops of \<^verbatim>\<open>kastore_pack_items\<close>, each returning the items and the offset.\<close>

fun pack_keys :: "size_t \<Rightarrow> kaitem list \<Rightarrow> kaitem list \<times> size_t" where
  "pack_keys offset [] = ([], offset)"
| "pack_keys offset (it # its) =
     (case pack_keys (offset + key_len it) its of
        (its', offset') \<Rightarrow> (it\<lparr>key_start := offset\<rparr> # its', offset'))"

definition align_up :: "size_t \<Rightarrow> size_t" where
  "align_up offset =
     (let remainder = offset mod KAS_ARRAY_ALIGN
      in if remainder \<noteq> 0 then offset + (KAS_ARRAY_ALIGN - remainder) else offset)"

fun pack_arrays :: "size_t \<Rightarrow> kaitem list \<Rightarrow> kaitem list \<times> size_t" where
  "pack_arrays offset [] = ([], offset)"
| "pack_arrays offset (it # its) =
     (let offset1 = align_up offset
      in case pack_arrays (offset1 + array_len it * type_size (type it)) its of
           (its', offset') \<Rightarrow> (it\<lparr>array_start := offset1\<rparr> # its', offset'))"

definition kastore_pack_items :: "kastore \<Rightarrow> ret \<times> kastore" where
  "kastore_pack_items self =
     (let offset = KAS_HEADER_SIZE + num_items self * KAS_ITEM_DESCRIPTOR_SIZE
      in case pack_keys offset (active_items self) of
           (its1, offset1) \<Rightarrow>
             case pack_arrays offset1 its1 of
               (its2, offset2) \<Rightarrow>
                 (None, self\<lparr>items := its2 @ drop (unat (num_items self)) (items self),
                             file_size := offset2\<rparr>))"

definition descriptor_bytes :: "kaitem \<Rightarrow> byte list" where
  "descriptor_bytes it =
     [word_of_int (type it)] @ replicate 7 0
     @ le_encode 8 (unat (key_start it))
     @ le_encode 8 (unat (key_len it))
     @ le_encode 8 (unat (array_start it))
     @ le_encode 8 (unat (array_len it))
     @ replicate 24 0"

fun write_descriptors :: "kaitem list \<Rightarrow> byte list option \<Rightarrow> ret \<times> byte list option" where
  "write_descriptors [] f = (None, f)"
| "write_descriptors (it # its) f =
     (case fwrite1 (descriptor_bytes it) KAS_ITEM_DESCRIPTOR_SIZE f of
        (cnt, f') \<Rightarrow>
          if cnt \<noteq> 1 then (Some KAS_ERR_IO, f') else write_descriptors its f')"

definition kastore_write_descriptors :: "kastore \<Rightarrow> ret \<times> kastore" where
  "kastore_write_descriptors self =
     (case write_descriptors (active_items self) (file_p self) of
        (r, f') \<Rightarrow> (r, self\<lparr>file_p := f'\<rparr>))"

text \<open>
  The two loops of \<^verbatim>\<open>kastore_write_data\<close>. The assertions of the source
  (\<^verbatim>\<open>ftell\<close> equals the packed offset, \<^verbatim>\<open>padding < KAS_ARRAY_ALIGN\<close>) are not part of the
  model.
\<close>

fun write_keys :: "size_t \<Rightarrow> kaitem list \<Rightarrow> byte list option \<Rightarrow> ret \<times> byte list option \<times> size_t" where
  "write_keys offset [] f = (None, f, offset)"
| "write_keys offset (it # its) f =
     (case fwrite1 (key it) (unat (key_len it)) f of
        (cnt, f') \<Rightarrow>
          if cnt \<noteq> 1 then (Some KAS_ERR_IO, f', offset)
          else write_keys (offset + key_len it) its f')"

fun write_arrays :: "size_t \<Rightarrow> kaitem list \<Rightarrow> byte list option \<Rightarrow> ret \<times> byte list option" where
  "write_arrays offset [] f = (None, f)"
| "write_arrays offset (it # its) f =
     (let padding = array_start it - offset;
          (cnt1, f1) = (if padding > 0 then fwrite1 (replicate KAS_ARRAY_ALIGN 0) (unat padding) f
                          else (1, f))
      in if padding > 0 \<and> cnt1 \<noteq> 1 then (Some KAS_ERR_IO, f1)
         else let sz = array_len it * type_size (type it);
                  (cnt2, f2) = (if sz > 0 then fwrite1 (array it) (unat sz) f1 else (1, f1))
              in if sz > 0 \<and> cnt2 \<noteq> 1 then (Some KAS_ERR_IO, f2)
                 else write_arrays (array_start it + sz) its f2)"

definition kastore_write_data :: "kastore \<Rightarrow> ret \<times> kastore" where
  "kastore_write_data self =
     (let offset = KAS_HEADER_SIZE + num_items self * KAS_ITEM_DESCRIPTOR_SIZE
      in case write_keys offset (active_items self) (file_p self) of
           (Some e, f', offset') \<Rightarrow> (Some e, self\<lparr>file_p := f'\<rparr>)
         | (None, f', offset') \<Rightarrow>
             (case write_arrays offset' (active_items self) f' of
                (r, f'') \<Rightarrow> (r, self\<lparr>file_p := f''\<rparr>)))"

text \<open>
  \<^verbatim>\<open>qsort\<close> with \<^verbatim>\<open>compare_items\<close>, as an insertion sort. On keys that are pairwise
  different under the comparison every sorting procedure returns the same array.
\<close>

fun insort_item :: "kaitem \<Rightarrow> kaitem list \<Rightarrow> kaitem list" where
  "insort_item x [] = [x]"
| "insort_item x (y # ys) =
     (if compare_items x y \<le> 0 then x # y # ys else y # insort_item x ys)"

definition qsort_items :: "kaitem list \<Rightarrow> kaitem list" where
  "qsort_items xs = foldr insort_item xs []"

definition kastore_write_file :: "kas_consts \<Rightarrow> kastore \<Rightarrow> ret \<times> kastore" where
  "kastore_write_file c self =
     (let self0 = self\<lparr>items := qsort_items (active_items self)
                                  @ drop (unat (num_items self)) (items self)\<rparr>
      in case kastore_pack_items self0 of
           (Some e, self1) \<Rightarrow> (Some e, self1)
         | (None, self1) \<Rightarrow>
             (case kastore_write_header c self1 of
                (Some e, self2) \<Rightarrow> (Some e, self2)
              | (None, self2) \<Rightarrow>
                  (case kastore_write_descriptors self2 of
                     (Some e, self3) \<Rightarrow> (Some e, self3)
                   | (None, self3) \<Rightarrow> kastore_write_data self3)))"

subsection \<open>Reading\<close>

text \<open>
  \<^verbatim>\<open>kastore_get_read_io_error\<close>: a read that came short because the file ended sets the
  end-of-file indicator, the only way a read fails here.
\<close>

definition kastore_get_read_io_error :: "bool \<Rightarrow> bool \<Rightarrow> kas_error" where
  "kastore_get_read_io_error at_eof errno_unset =
     (if at_eof \<or> errno_unset then KAS_ERR_BAD_FILE_FORMAT else KAS_ERR_IO)"

text \<open>
  \<^verbatim>\<open>strncmp\<close>: compares at most \<open>n\<close> characters and stops after a NUL; the end of a
  list reads as the terminating NUL.
\<close>

fun strncmp :: "byte list \<Rightarrow> byte list \<Rightarrow> nat \<Rightarrow> int" where
  "strncmp s1 s2 0 = 0"
| "strncmp s1 s2 (Suc n) =
     (let c1 = (case s1 of [] \<Rightarrow> 0 | x # _ \<Rightarrow> x);
          c2 = (case s2 of [] \<Rightarrow> 0 | x # _ \<Rightarrow> x)
      in if c1 < c2 then - 1 else if c2 < c1 then 1
         else if c1 = 0 then 0 else strncmp (tl s1) (tl s2) n)"

definition kastore_read_header :: "kas_consts \<Rightarrow> kastore \<Rightarrow> ret \<times> kastore" where
  "kastore_read_header c self =
     (let f = (case file_p self of None \<Rightarrow> [] | Some f \<Rightarrow> f)
      in if length f < KAS_HEADER_SIZE
         then (Some (kastore_get_read_io_error True True), self)
         else
           let header = take KAS_HEADER_SIZE f
           in if strncmp header (KAS_MAGIC c) 8 \<noteq> 0 then (Some KAS_ERR_BAD_FILE_FORMAT, self)
              else
                let version_major = load_u16 (drop 8 header);
                    version_minor = load_u16 (drop 10 header);
                    num_items32 = load_u32 (drop 12 header);
                    file_size64 = load_u64 (drop 16 header);
                    self1 = self\<lparr>file_version := (uint version_major, uint version_minor)\<rparr>
                in if fst (file_version self1) < KAS_FILE_VERSION_MAJOR c
                   then (Some KAS_ERR_VERSION_TOO_OLD, self1)
                   else if fst (file_version self1) > KAS_FILE_VERSION_MAJOR c
                   then (Some KAS_ERR_VERSION_TOO_NEW, self1)
                   else
                     let self2 = self1\<lparr>num_items := ucast num_items32,
                                       file_size := file_size64\<rparr>
                     in if file_size self2 < KAS_HEADER_SIZE
                        then (Some KAS_ERR_BAD_FILE_FORMAT, self2)
                        else (None, self2))"

text \<open>
  The first loop of \<^verbatim>\<open>kastore_read_descriptors\<close>, over the \<^verbatim>\<open>calloc\<close>ed items; the
  descriptor of the first one is at \<open>descriptor_offset\<close>.
\<close>

fun parse_descriptors ::
  "byte list \<Rightarrow> size_t \<Rightarrow> size_t \<Rightarrow> kaitem list \<Rightarrow> ret \<times> kaitem list" where
  "parse_descriptors buf fsize descriptor_offset [] = (None, [])"
| "parse_descriptors buf fsize descriptor_offset (it # its) =
     (let descriptor = drop (unat descriptor_offset) buf;
          ty = load_u8 descriptor;
          kstart = load_u64 (drop 8 descriptor);
          klen = load_u64 (drop 16 descriptor);
          astart = load_u64 (drop 24 descriptor);
          alen = load_u64 (drop 32 descriptor)
      in if ty \<ge> KAS_NUM_TYPES then (Some KAS_ERR_BAD_TYPE, it # its)
         else
           let it1 = it\<lparr>type := uint ty\<rparr>
           in if kstart + klen > fsize then (Some KAS_ERR_BAD_FILE_FORMAT, it1 # its)
              else
                let it2 = it1\<lparr>key_start := kstart, key_len := klen,
                               key := drop (unat kstart) buf\<rparr>
                in if astart + alen * type_size (uint ty) > fsize
                   then (Some KAS_ERR_BAD_FILE_FORMAT, it2 # its)
                   else
                     let it3 = it2\<lparr>array_start := astart, array_len := alen,
                                    array := drop (unat astart) buf\<rparr>
                     in case parse_descriptors buf fsize
                               (descriptor_offset + KAS_ITEM_DESCRIPTOR_SIZE) its of
                          (r, its') \<Rightarrow> (r, it3 # its'))"

text \<open>The two loops that check the packing; \<open>None\<close> is the \<^verbatim>\<open>goto out\<close> on a mismatch.\<close>

fun check_keys :: "size_t \<Rightarrow> kaitem list \<Rightarrow> size_t option" where
  "check_keys offset [] = Some offset"
| "check_keys offset (it # its) =
     (if key_start it \<noteq> offset then None else check_keys (offset + key_len it) its)"

fun check_arrays :: "size_t \<Rightarrow> kaitem list \<Rightarrow> size_t option" where
  "check_arrays offset [] = Some offset"
| "check_arrays offset (it # its) =
     (let offset1 = align_up offset
      in if array_start it \<noteq> offset1 then None
         else check_arrays (offset1 + array_len it * type_size (type it)) its)"

definition kastore_read_descriptors :: "kastore \<Rightarrow> ret \<times> kastore" where
  "kastore_read_descriptors self =
     (let descriptor_offset = KAS_HEADER_SIZE;
          buf = (case read_buffer self of None \<Rightarrow> [] | Some b \<Rightarrow> b)
      in if descriptor_offset + num_items self * KAS_ITEM_DESCRIPTOR_SIZE > file_size self
         then (Some KAS_ERR_BAD_FILE_FORMAT, self)
         else
           case parse_descriptors buf (file_size self) descriptor_offset (active_items self) of
             (Some e, its) \<Rightarrow>
               (Some e, self\<lparr>items := its @ drop (unat (num_items self)) (items self)\<rparr>)
           | (None, its) \<Rightarrow>
               (let self1 = self\<lparr>items := its @ drop (unat (num_items self)) (items self)\<rparr>;
                    offset = KAS_HEADER_SIZE + num_items self1 * KAS_ITEM_DESCRIPTOR_SIZE
                in case check_keys offset (active_items self1) of
                     None \<Rightarrow> (Some KAS_ERR_BAD_FILE_FORMAT, self1)
                   | Some offset1 \<Rightarrow>
                       (case check_arrays offset1 (active_items self1) of
                          None \<Rightarrow> (Some KAS_ERR_BAD_FILE_FORMAT, self1)
                        | Some offset2 \<Rightarrow> (None, self1))))"

text \<open>
  \<^verbatim>\<open>kastore_mmap_file\<close>: \<^verbatim>\<open>st.st_size\<close> is the length of the file; the mapping is the
  file's content.
\<close>

definition kastore_mmap_file :: "kastore \<Rightarrow> ret \<times> kastore" where
  "kastore_mmap_file self =
     (let f = (case file_p self of None \<Rightarrow> [] | Some f \<Rightarrow> f)
      in if file_size self \<noteq> of_nat (length f) then (Some KAS_ERR_BAD_FILE_FORMAT, self)
         else (None, self\<lparr>read_buffer := Some (take (unat (file_size self)) f)\<rparr>))"

text \<open>
  \<^verbatim>\<open>kastore_read_file\<close>: a buffer of \<open>file_size\<close> bytes, filled from the start of the
  file; \<^verbatim>\<open>fread\<close> returns 0 when the file has fewer bytes (or \<open>file_size\<close> is 0), at
  the end of the file. The source first allocates the buffer with
  \<^verbatim>\<open>malloc(self->file_size)\<close> and returns \<^verbatim>\<open>KAS_ERR_NO_MEMORY\<close> when that fails; by the
  convention on the allocator this branch is not in the model. The size is the one that
  the header declares, so what is proved of this function speaks of the code only
  where an allocation of \<open>file_size\<close> bytes succeeds, as it does for a file that has
  this many bytes.
\<close>

definition kastore_read_file :: "kastore \<Rightarrow> ret \<times> kastore" where
  "kastore_read_file self =
     (let f = (case file_p self of None \<Rightarrow> [] | Some f \<Rightarrow> f);
          n = unat (file_size self);
          self1 = self\<lparr>read_buffer := Some (take n f)\<rparr>
      in if length f < n \<or> n = 0
         then (Some (kastore_get_read_io_error True True), self1)
         else (None, self1))"

text \<open>
  The gate of \<^verbatim>\<open>kastore_read\<close> under \<^verbatim>\<open>__unix__\<close>, \<^verbatim>\<open>!self->flags & KAS_NO_MMAP\<close>: the
  negation binds tighter than \<^verbatim>\<open>&\<close>, so this is \<^verbatim>\<open>(!self->flags) & KAS_NO_MMAP\<close>.
\<close>

definition mmap_gate :: "kas_consts \<Rightarrow> kastore \<Rightarrow> bool" where
  "mmap_gate c self = ((if flags self = 0 then 1 else 0) AND KAS_NO_MMAP c \<noteq> 0)"

definition kastore_read :: "kas_consts \<Rightarrow> kastore \<Rightarrow> ret \<times> kastore" where
  "kastore_read c self =
     (case kastore_read_header c self of
        (Some e, self1) \<Rightarrow> (Some e, self1)
      | (None, self1) \<Rightarrow>
          (case (if mmap_gate c self1 then kastore_mmap_file self1
                 else kastore_read_file self1) of
             (Some e, self2) \<Rightarrow> (Some e, self2)
           | (None, self2) \<Rightarrow>
               if num_items self2 > 0
               then kastore_read_descriptors
                      (self2\<lparr>items := replicate (unat (num_items self2)) kaitem_zero\<rparr>)
               else (None, self2)))"

subsection \<open>The store API\<close>

text \<open>
  \<open>kastore_open c disk m fl\<close>: \<open>disk\<close> is the content of the file named by the
  \<^verbatim>\<open>filename\<close> argument, \<open>None\<close> when there is no such file (\<^verbatim>\<open>fopen\<close> with \<^verbatim>\<open>"rb"\<close>
  fails); \<^verbatim>\<open>fopen\<close> with \<^verbatim>\<open>"wb"\<close> gives an empty file.
\<close>

definition kastore_open :: "kas_consts \<Rightarrow> byte list option \<Rightarrow> string \<Rightarrow> int \<Rightarrow> ret \<times> kastore" where
  "kastore_open c disk m fl =
     (let self = kastore_zero
      in if length m \<noteq> 1 then (Some KAS_ERR_BAD_MODE, self)
         else if \<not> (take 1 m = ''r'' \<or> take 1 m = ''w'') then (Some KAS_ERR_BAD_MODE, self)
         else
           let self1 = (if take 1 m = ''r'' then self\<lparr>mode := KAS_READ c\<rparr>
                        else self\<lparr>mode := KAS_WRITE c\<rparr>);
               self2 = self1\<lparr>flags := fl,
                             file_p := (if take 1 m = ''r'' then disk else Some [])\<rparr>
           in if file_p self2 = None then (Some KAS_ERR_IO, self2)
              else if mode self2 = KAS_READ c then kastore_read c self2
              else (None, self2))"

text \<open>
  What \<open>kastore_close\<close> hands back to the system, in the order of the calls.
  \<^verbatim>\<open>kas_safe_free\<close> frees a pointer that is not \<^verbatim>\<open>NULL\<close>, and
  \<^verbatim>\<open>kastore_munmap_file\<close> unmaps a buffer that is not \<^verbatim>\<open>NULL\<close>.
\<close>

datatype release = Free_key | Free_items | Munmap_read_buffer | Free_read_buffer | Fclose

text \<open>
  \<open>kastore_close\<close> returns the code, the store, the content of the file behind the
  stream it closed (\<open>None\<close> when no stream was open), and the releases it made.
\<close>

definition kastore_close ::
  "kas_consts \<Rightarrow> kastore \<Rightarrow> ret \<times> kastore \<times> byte list option \<times> release list" where
  "kastore_close c self =
     (let (ret1, self1, closed1, rel1) =
            (if mode self = KAS_WRITE c
             then
               let (r, s, cl, rl) =
                     (if file_p self \<noteq> None
                      then (case kastore_write_file c self of
                              (Some e, s) \<Rightarrow> (Some e, s\<lparr>file_p := None\<rparr>, file_p s, [Fclose])
                            | (None, s) \<Rightarrow> (None, s, None, []))
                      else (None, self, None, []))
               in (r, s, cl,
                   rl @ (if items s \<noteq> []
                         then map (\<lambda>it. Free_key) (filter (\<lambda>it. key it \<noteq> []) (active_items s))
                         else []))
             else (None, self, None, []));
          rel2 = rel1 @ (if items self1 \<noteq> [] then [Free_items] else []);
          rel3 = rel2 @ (if flags self1 AND KAS_NO_MMAP c = 0
                         then (if read_buffer self1 \<noteq> None then [Munmap_read_buffer] else [])
                         else (if read_buffer self1 \<noteq> None then [Free_read_buffer] else []));
          (ret2, closed2, rel4) =
            (case file_p self1 of
               None \<Rightarrow> (ret1, closed1, rel3)
             | Some f \<Rightarrow> (ret1, Some f, rel3 @ [Fclose]))
      in (ret2, kastore_zero, closed2, rel4))"

text \<open>
  \<^verbatim>\<open>bsearch\<close> as the usual loop over the half-open range \<open>l..<u\<close> of the array, which
  returns the element at the probed index when the comparison is 0.
\<close>

function bsearch_loop :: "kaitem \<Rightarrow> kaitem list \<Rightarrow> nat \<Rightarrow> nat \<Rightarrow> kaitem option" where
  "bsearch_loop k base l u =
     (if l < u \<and> u \<le> length base
      then (let idx = (l + u) div 2;
                comparison = compare_items k (base ! idx)
            in if comparison < 0 then bsearch_loop k base l idx
               else if comparison > 0 then bsearch_loop k base (idx + 1) u
               else Some (base ! idx))
      else None)"
  by pat_completeness auto
termination
  by (relation "measure (\<lambda>(k, base, l, u). u - l)") auto

definition bsearch :: "kaitem \<Rightarrow> kaitem list \<Rightarrow> kaitem option" where
  "bsearch k base = bsearch_loop k base 0 (length base)"

text \<open>
  \<open>kastore_get self k klen\<close> gives the three outputs \<^verbatim>\<open>*array\<close>, \<^verbatim>\<open>*array_len\<close>,
  \<^verbatim>\<open>*type\<close> on success. It does not change the store. (\<^verbatim>\<open>malloc\<close> returns a
  pointer, also for a size of 0.)
\<close>

definition kastore_get ::
  "kastore \<Rightarrow> byte list \<Rightarrow> size_t \<Rightarrow> kas_error + (byte list \<times> size_t \<times> int)" where
  "kastore_get self k klen =
     (let search = kaitem_zero\<lparr>key := take (unat klen) k, key_len := klen\<rparr>
      in case bsearch search (active_items self) of
           None \<Rightarrow> Inl KAS_ERR_KEY_NOT_FOUND
         | Some item \<Rightarrow> Inr (array item, array_len item, type item))"

text \<open>\<open>kastore_put self k klen arr alen ty fl\<close>\<close>

definition kastore_put ::
  "kastore \<Rightarrow> byte list \<Rightarrow> size_t \<Rightarrow> byte list \<Rightarrow> size_t \<Rightarrow> int \<Rightarrow> int \<Rightarrow> ret \<times> kastore" where
  "kastore_put self k klen arr alen ty fl =
     (if ty < 0 \<or> ty \<ge> KAS_NUM_TYPES then (Some KAS_ERR_BAD_TYPE, self)
      else if klen = 0 then (Some KAS_ERR_EMPTY_KEY, self)
      else
        let new_item = kaitem_zero\<lparr>type := ty, key := take (unat klen) k, key_len := klen,
                                   array := arr, array_len := alen\<rparr>;
            self1 = self\<lparr>items := active_items self @ [new_item],
                          num_items := num_items self + 1\<rparr>
        in if list_ex (\<lambda>old. compare_items new_item old = 0)
                (take (unat (num_items self1 - 1)) (items self1))
           then (Some KAS_ERR_DUPLICATE_KEY, self1\<lparr>num_items := num_items self1 - 1\<rparr>)
           else (None, self1))"

subsection \<open>What a store holds, and sequences of calls\<close>

text \<open>
  The bytes of an item's key and of its array, read through the two pointers with the
  lengths the item records; the array has \<open>array_len * type_size(type)\<close> bytes, as
  \<^verbatim>\<open>kastore_write_data\<close> computes them.
\<close>

definition key_bytes :: "kaitem \<Rightarrow> byte list" where
  "key_bytes it = take (unat (key_len it)) (key it)"

definition array_bytes :: "kaitem \<Rightarrow> byte list" where
  "array_bytes it = take (unat (array_len it * type_size (type it))) (array it)"

definition entry :: "kaitem \<Rightarrow> byte list \<times> int \<times> byte list" where
  "entry it = (key_bytes it, type it, array_bytes it)"

text \<open>
  The result of \<open>kastore_get\<close> with the pointer replaced by the bytes of the view it
  points to.
\<close>

definition get_view ::
  "kas_error + (byte list \<times> size_t \<times> int) \<Rightarrow> kas_error + (byte list \<times> size_t \<times> int)" where
  "get_view r =
     (case r of
        Inl e \<Rightarrow> Inl e
      | Inr (p, n, t) \<Rightarrow> Inr (take (unat (n * type_size t)) p, n, t))"

text \<open>
  A call of \<open>kastore_put\<close> is given by the key, the array, its number of elements and
  its type; the length of the key is passed as \<open>key_len\<close>. \<open>put_all\<close> makes the calls
  in order and goes on after a call that returns an error.
\<close>

type_synonym put_call = "byte list \<times> byte list \<times> size_t \<times> int"

fun put_all :: "kastore \<Rightarrow> put_call list \<Rightarrow> ret list \<times> kastore" where
  "put_all self [] = ([], self)"
| "put_all self ((k, arr, alen, ty) # calls) =
     (case kastore_put self k (of_nat (length k)) arr alen ty 0 of
        (r, self1) \<Rightarrow>
          (case put_all self1 calls of (rs, self2) \<Rightarrow> (r # rs, self2)))"

text \<open>
  A call the claims are about: a non-empty key (of a length that fits \<^verbatim>\<open>size_t\<close>), a
  valid type tag, and an array block of exactly \<open>array_len\<close> elements of the type's
  width.
\<close>

definition call_ok :: "put_call \<Rightarrow> bool" where
  "call_ok p =
     (case p of (k, arr, alen, ty) \<Rightarrow>
        k \<noteq> [] \<and> length k < 2 ^ 64 \<and> 0 \<le> ty \<and> ty < KAS_NUM_TYPES \<and>
        length arr = unat alen * unat (type_size ty))"

text \<open>
  The width table of the specification (section 3), the number of bytes of one element
  by type tag: unsigned and signed 8-bit, unsigned and signed 32-bit, unsigned and
  signed 64-bit, 32-bit float, 64-bit float. With it, the same call measured by the
  specification: the array has \<open>array_len\<close> elements of the width that the table gives;
  and the result of \<open>kastore_get\<close> with the pointer replaced by the bytes of that many
  elements of that width.
\<close>

definition type_width :: "int \<Rightarrow> nat" where
  "type_width t =
     (if t = 0 then 1 else if t = 1 then 1 else if t = 2 then 4 else if t = 3 then 4
      else if t = 4 then 8 else if t = 5 then 8 else if t = 6 then 4 else if t = 7 then 8
      else 0)"

definition put_call_valid :: "put_call \<Rightarrow> bool" where
  "put_call_valid p =
     (case p of (k, arr, alen, ty) \<Rightarrow>
        k \<noteq> [] \<and> length k < 2 ^ 64 \<and> 0 \<le> ty \<and> ty < 8 \<and>
        length arr = unat alen * type_width ty)"

definition view_bytes ::
  "kas_error + (byte list \<times> size_t \<times> int) \<Rightarrow> kas_error + (byte list \<times> size_t \<times> int)" where
  "view_bytes r =
     (case r of
        Inl e \<Rightarrow> Inl e
      | Inr (p, n, t) \<Rightarrow> Inr (take (unat n * type_width t) p, n, t))"

text \<open>
  An upper bound of the size of the file for a list of calls: the header, and for each
  item its descriptor, its key, its array and 8 bytes for the padding.
\<close>

definition calls_room :: "put_call list \<Rightarrow> nat" where
  "calls_room ps =
     64 + sum_list (map (\<lambda>p. case p of (k, arr, alen, ty) \<Rightarrow> 64 + length k + 8 + length arr) ps)"

text \<open>The same properties of an item of a store that is being written.\<close>

definition item_ok :: "kaitem \<Rightarrow> bool" where
  "item_ok it =
     (0 \<le> type it \<and> type it < KAS_NUM_TYPES \<and> key_len it \<noteq> 0 \<and>
      length (key it) = unat (key_len it) \<and>
      length (array it) = unat (array_len it) * unat (type_size (type it)))"

text \<open>
  The memory behind the two pointers of an item is at least as long as the item says
  (\<open>item_ok\<close> asks for the exact lengths).
\<close>

definition key_fits :: "kaitem \<Rightarrow> bool" where
  "key_fits it = (unat (key_len it) \<le> length (key it))"

definition array_fits :: "kaitem \<Rightarrow> bool" where
  "array_fits it = (unat (array_len it) * unat (type_size (type it)) \<le> length (array it))"

text \<open>
  The packing walk of \<^verbatim>\<open>kastore_pack_items\<close> in natural numbers, without wrap-around:
  the offset after the arrays, and the size of the packed file.
\<close>

definition align_up_nat :: "nat \<Rightarrow> nat" where
  "align_up_nat n = (if n mod 8 \<noteq> 0 then n + (8 - n mod 8) else n)"

fun arrays_end :: "nat \<Rightarrow> kaitem list \<Rightarrow> nat" where
  "arrays_end offset [] = offset"
| "arrays_end offset (it # its) =
     arrays_end (align_up_nat offset + unat (array_len it) * unat (type_size (type it))) its"

definition packed_size :: "kaitem list \<Rightarrow> nat" where
  "packed_size its =
     arrays_end (64 + 64 * length its + sum_list (map (\<lambda>it. unat (key_len it)) its)) its"

text \<open>
  The items as \<^verbatim>\<open>kastore_pack_items\<close> leaves them, and the bytes that
  \<^verbatim>\<open>kastore_write_file\<close> writes for them: header, descriptors, keys, and the arrays each
  after its padding.
\<close>

definition packed :: "kaitem list \<Rightarrow> kaitem list" where
  "packed its =
     fst (pack_arrays
            (snd (pack_keys (KAS_HEADER_SIZE + of_nat (length its) * KAS_ITEM_DESCRIPTOR_SIZE) its))
            (fst (pack_keys (KAS_HEADER_SIZE + of_nat (length its) * KAS_ITEM_DESCRIPTOR_SIZE) its)))"

definition header_image :: "kas_consts \<Rightarrow> size_t \<Rightarrow> size_t \<Rightarrow> byte list" where
  "header_image c n fsize =
     take 8 (KAS_MAGIC c)
     @ le_encode 2 (unat (word_of_int (KAS_FILE_VERSION_MAJOR c) :: 16 word))
     @ le_encode 2 (unat (word_of_int (KAS_FILE_VERSION_MINOR c) :: 16 word))
     @ le_encode 4 (unat (ucast n :: 32 word))
     @ le_encode 8 (unat fsize)
     @ replicate 40 0"

fun arrays_image :: "size_t \<Rightarrow> kaitem list \<Rightarrow> byte list" where
  "arrays_image offset [] = []"
| "arrays_image offset (it # its) =
     replicate (unat (array_start it - offset)) 0 @ array_bytes it
     @ arrays_image (array_start it + array_len it * type_size (type it)) its"

definition file_image :: "kas_consts \<Rightarrow> kaitem list \<Rightarrow> byte list" where
  "file_image c its =
     (let n = (of_nat (length its) :: size_t);
          offset0 = KAS_HEADER_SIZE + n * KAS_ITEM_DESCRIPTOR_SIZE;
          offset1 = snd (pack_keys offset0 its);
          fsize = snd (pack_arrays offset1 (fst (pack_keys offset0 its)))
      in header_image c n fsize
         @ concat (map descriptor_bytes (packed its))
         @ concat (map key_bytes (packed its))
         @ arrays_image offset1 (packed its))"

text \<open>The item that \<open>kastore_put\<close> appends for a call.\<close>

definition item_of_call :: "put_call \<Rightarrow> kaitem" where
  "item_of_call p =
     (case p of (k, arr, alen, ty) \<Rightarrow>
        kaitem_zero\<lparr>type := ty, key := k, key_len := of_nat (length k),
                    array := arr, array_len := alen\<rparr>)"

text \<open>
  An item of a store that was read from the buffer \<open>buf\<close>: its key and array point
  into the buffer at the offsets of the descriptor.
\<close>

definition relocate :: "byte list \<Rightarrow> kaitem \<Rightarrow> kaitem" where
  "relocate buf d =
     d\<lparr>key := drop (unat (key_start d)) buf, array := drop (unat (array_start d)) buf\<rparr>"

text \<open>
  The descriptor of index \<open>j\<close> in a buffer, as the first loop of
  \<^verbatim>\<open>kastore_read_descriptors\<close> fills a \<^verbatim>\<open>calloc\<close>ed item from it, the three tests of
  that loop on it, and the fields of an item that are numbers.
\<close>

definition descriptor_at :: "byte list \<Rightarrow> nat \<Rightarrow> kaitem" where
  "descriptor_at buf j =
     (let descriptor = drop (KAS_HEADER_SIZE + j * KAS_ITEM_DESCRIPTOR_SIZE) buf;
          kstart = load_u64 (drop 8 descriptor);
          astart = load_u64 (drop 24 descriptor)
      in kaitem_zero\<lparr>type := uint (load_u8 descriptor),
                      key_start := kstart, key_len := load_u64 (drop 16 descriptor),
                      key := drop (unat kstart) buf,
                      array_start := astart, array_len := load_u64 (drop 32 descriptor),
                      array := drop (unat astart) buf\<rparr>)"

definition descriptor_in_bounds :: "size_t \<Rightarrow> kaitem \<Rightarrow> bool" where
  "descriptor_in_bounds fsize d =
     (type d < KAS_NUM_TYPES \<and> \<not> key_start d + key_len d > fsize \<and>
      \<not> array_start d + array_len d * type_size (type d) > fsize)"

definition numeric_fields :: "kaitem \<Rightarrow> int \<times> size_t \<times> size_t \<times> size_t \<times> size_t" where
  "numeric_fields d = (type d, key_start d, key_len d, array_start d, array_len d)"

text \<open>
  What \<^verbatim>\<open>kastore_read_descriptors\<close> tests on the \<open>n\<close> descriptors that it has parsed: the
  descriptors end within the file, each one is within its bounds, and the offsets pass
  the two loops that check the packing.
\<close>

definition descriptors_accepted :: "size_t \<Rightarrow> size_t \<Rightarrow> kaitem list \<Rightarrow> bool" where
  "descriptors_accepted fsize n ds =
     (\<not> KAS_HEADER_SIZE + n * KAS_ITEM_DESCRIPTOR_SIZE > fsize \<and>
      list_all (descriptor_in_bounds fsize) ds \<and>
      (case check_keys (KAS_HEADER_SIZE + n * KAS_ITEM_DESCRIPTOR_SIZE) ds of
         None \<Rightarrow> False
       | Some offset1 \<Rightarrow> check_arrays offset1 ds \<noteq> None))"

text \<open>
  The packing walk of the specification, as equations between the offsets that a list
  of \<open>n\<close> items records: the first key starts after the header and the \<open>n\<close>
  descriptors, each further key where the one before ends, the first array at the end
  of the last key rounded up to the alignment, each further array at the end of the one
  before rounded up. \<open>walk_end\<close> is the offset where the walk ends.
\<close>

definition follows_packing_walk :: "size_t \<Rightarrow> kaitem list \<Rightarrow> bool" where
  "follows_packing_walk n its =
     ((its = [] \<or> key_start (hd its) = KAS_HEADER_SIZE + n * KAS_ITEM_DESCRIPTOR_SIZE) \<and>
      list_all (\<lambda>j. key_start (its ! Suc j) = key_start (its ! j) + key_len (its ! j))
        [0..<length its - 1] \<and>
      (its = [] \<or> array_start (hd its) = align_up (key_start (last its) + key_len (last its))) \<and>
      list_all (\<lambda>j. array_start (its ! Suc j)
                      = align_up (array_start (its ! j)
                                  + array_len (its ! j) * type_size (type (its ! j))))
        [0..<length its - 1] \<and>
      list_all (\<lambda>it. array_start it mod KAS_ARRAY_ALIGN = 0) its)"

definition walk_end :: "size_t \<Rightarrow> kaitem list \<Rightarrow> size_t" where
  "walk_end n its =
     (if its = [] then KAS_HEADER_SIZE + n * KAS_ITEM_DESCRIPTOR_SIZE
      else array_start (last its) + array_len (last its) * type_size (type (last its)))"

subsection \<open>Example inputs\<close>

text \<open>
  An instance of the constants of \<^verbatim>\<open>kastore.h\<close>, on which the model is evaluated in the
  examples: an 8-byte magic without a zero byte, version 1.0, distinct modes, and bit 0
  for \<^verbatim>\<open>KAS_NO_MMAP\<close>.
\<close>

definition example_consts :: kas_consts where
  "example_consts =
     \<lparr>KAS_MAGIC = [0x89, 0x4B, 0x41, 0x53, 0x0D, 0x0A, 0x1A, 0x0A],
      KAS_FILE_VERSION_MAJOR = 1, KAS_FILE_VERSION_MINOR = 0,
      KAS_READ = 1, KAS_WRITE = 2, KAS_NO_MMAP = 1\<rparr>"

text \<open>
  The 64 bytes of a header that declares \<open>n\<close> items and the file size \<open>fsize\<close>, for
  building example files.
\<close>

definition header_block :: "kas_consts \<Rightarrow> nat \<Rightarrow> nat \<Rightarrow> byte list" where
  "header_block c n fsize =
     KAS_MAGIC c @ le_encode 2 (nat (KAS_FILE_VERSION_MAJOR c))
     @ le_encode 2 (nat (KAS_FILE_VERSION_MINOR c))
     @ le_encode 4 n @ le_encode 8 fsize @ replicate 40 0"

text \<open>
  A file of 128 bytes with one descriptor: the key starts at 128 and has length
  \<open>2\<^sup>6\<^sup>4 - 120\<close>, the empty array starts at 8.
\<close>

definition overflow_file :: "byte list" where
  "overflow_file =
     header_block example_consts 1 128
     @ descriptor_bytes (kaitem_zero\<lparr>type := 0, key_start := 128, key_len := - 120,
                                     array_start := 8, array_len := 0\<rparr>)"

text \<open>The file of an empty store, and the same file followed by one more byte.\<close>

definition empty_store_file :: "byte list" where
  "empty_store_file = header_block example_consts 0 64"

definition trailing_byte_file :: "byte list" where
  "trailing_byte_file = header_block example_consts 0 64 @ [7]"

text \<open>
  A file of two items with empty arrays whose keys \<open>b\<close>, \<open>a\<close> are stored in this
  order, with the offsets of the packing walk.
\<close>

definition unsorted_file :: "byte list" where
  "unsorted_file =
     header_block example_consts 2 200
     @ descriptor_bytes (kaitem_zero\<lparr>key_start := 192, key_len := 1, array_start := 200\<rparr>)
     @ descriptor_bytes (kaitem_zero\<lparr>key_start := 193, key_len := 1, array_start := 200\<rparr>)
     @ [98, 97] @ replicate 6 0"

text \<open>
  A file of 204 bytes with two items: the key \<open>a\<close> with an empty array of unsigned
  64-bit elements, and the key \<open>b\<close> with one unsigned 32-bit element, at the offsets
  of the packing walk.
\<close>

definition example_file :: "byte list" where
  "example_file =
     header_block example_consts 2 204
     @ descriptor_bytes (kaitem_zero\<lparr>type := 4, key_start := 192, key_len := 1,
                                     array_start := 200, array_len := 0\<rparr>)
     @ descriptor_bytes (kaitem_zero\<lparr>type := 2, key_start := 193, key_len := 1,
                                     array_start := 200, array_len := 1\<rparr>)
     @ [97, 98] @ replicate 6 0 @ [0x44, 0x33, 0x22, 0x11]"

text \<open>
  Two calls of put: the key \<open>b\<close> with one unsigned 32-bit element, then the key \<open>a\<close>
  with an empty array of 64-bit elements.
\<close>

definition example_calls :: "put_call list" where
  "example_calls = [([98], [0x44, 0x33, 0x22, 0x11], 1, 2), ([97], [], 0, 4)]"

section \<open>Evaluating the model\<close>

declare bsearch_loop.simps [simp del]

lemma le_encode_numeral:
  "le_encode (numeral k) v = of_nat (v mod 256) # le_encode (pred_numeral k) (v div 256)"
  by (simp only: numeral_eq_Suc [of k] le_encode.simps)

lemma strncmp_numeral:
  "strncmp s1 s2 (numeral k) =
     (let c1 = (case s1 of [] \<Rightarrow> 0 | x # _ \<Rightarrow> x);
          c2 = (case s2 of [] \<Rightarrow> 0 | x # _ \<Rightarrow> x)
      in if c1 < c2 then - 1 else if c2 < c1 then 1
         else if c1 = 0 then 0 else strncmp (tl s1) (tl s2) (pred_numeral k))"
  by (simp only: numeral_eq_Suc [of k] strncmp.simps)

lemma replicate_numeral_unfold:
  "replicate (numeral k) x = x # replicate (pred_numeral k) x"
  by (simp only: numeral_eq_Suc [of k] replicate.simps)

lemmas eval_simps =
  replicate_numeral_unfold Let_def le_encode_numeral strncmp_numeral
  overflow_file_def header_block_def example_consts_def descriptor_bytes_def kaitem_zero_def
  load_u8_def load_u16_def load_u32_def load_u64_def kastore_zero_def kastore_read_header_def
  kastore_open_def kastore_read_def kastore_read_descriptors_def kastore_mmap_file_def
  kastore_read_file_def mmap_gate_def active_items_def type_size_def align_up_def
  kastore_get_read_io_error_def trailing_byte_file_def unsorted_file_def
  empty_store_file_def example_file_def compare_items_def memcmp_def kastore_put_def kastore_get_def
  bsearch_def bsearch_loop.simps

section \<open>Lemmas about the writer and the reader\<close>

subsection \<open>Integers in memory\<close>

lemma length_le_encode [simp]: "length (le_encode n v) = n"
  by (induction n arbitrary: v) auto

lemma le_decode_encode: "le_decode (le_encode n v) = v mod 256 ^ n"
proof (induction n arbitrary: v)
  case 0
  show ?case by simp
next
  case (Suc n)
  have "unat (of_nat (v mod 256) :: byte) = v mod 256"
    by (simp add: unat_of_nat)
  with Suc show ?case
    by (simp add: mod_mult2_eq)
qed

lemma load_u64_encode [simp]: "load_u64 (le_encode 8 (unat (w :: 64 word)) @ rest) = w"
proof -
  have "unat w < 256 ^ 8" using unsigned_less [of w, where ?'a = nat] by simp
  then show ?thesis by (simp add: load_u64_def le_decode_encode)
qed

lemma load_u32_encode [simp]: "load_u32 (le_encode 4 (unat (w :: 32 word)) @ rest) = w"
proof -
  have "unat w < 256 ^ 4" using unsigned_less [of w, where ?'a = nat] by simp
  then show ?thesis by (simp add: load_u32_def le_decode_encode)
qed

lemma load_u16_encode [simp]: "load_u16 (le_encode 2 (unat (w :: 16 word)) @ rest) = w"
proof -
  have "unat w < 256 ^ 2" using unsigned_less [of w, where ?'a = nat] by simp
  then show ?thesis by (simp add: load_u16_def le_decode_encode)
qed

lemma load_u8_Cons [simp]: "load_u8 (b # rest) = b"
  by (simp add: load_u8_def)

lemma length_descriptor_bytes [simp]: "length (descriptor_bytes d) = 64"
  by (simp add: descriptor_bytes_def)

lemma descriptor_fields:
  "load_u8 (descriptor_bytes d @ rest) = word_of_int (type d)"
  "load_u64 (drop 8 (descriptor_bytes d @ rest)) = key_start d"
  "load_u64 (drop 16 (descriptor_bytes d @ rest)) = key_len d"
  "load_u64 (drop 24 (descriptor_bytes d @ rest)) = array_start d"
  "load_u64 (drop 32 (descriptor_bytes d @ rest)) = array_len d"
  by (simp_all add: descriptor_bytes_def)

subsection \<open>The key order\<close>

lemma memcmp_bytes_lex:
  "length xs = length ys \<Longrightarrow>
   memcmp_bytes xs ys = (if xs < ys then - 1 else if xs = ys then 0 else 1)"
proof (induction xs ys rule: list_induct2')
  case (4 x xs y ys)
  then show ?case by (auto simp: Cons_less_Cons)
qed auto

lemma lex_prefix_cases:
  fixes xs ys :: "byte list"
  assumes "take (min (length xs) (length ys)) xs = take (min (length xs) (length ys)) ys"
  shows "(length xs < length ys \<longrightarrow> xs < ys) \<and> (length xs = length ys \<longrightarrow> xs = ys) \<and>
         (length ys < length xs \<longrightarrow> ys < xs)"
  using assms
proof (induction xs ys rule: list_induct2')
  case (4 x xs y ys)
  then show ?case by (auto simp: Cons_less_Cons)
qed auto

lemma lex_take_less:
  fixes xs ys :: "byte list"
  shows "take n xs < take n ys \<Longrightarrow> xs < ys"
proof (induction xs ys arbitrary: n rule: list_induct2')
  case (4 x xs y ys)
  then show ?case by (cases n) (auto simp: Cons_less_Cons)
qed auto

lemma compare_items_lex:
  assumes "length (key a) = unat (key_len a)" "length (key b) = unat (key_len b)"
  shows "compare_items a b = (if key a < key b then - 1 else if key a = key b then 0 else 1)"
proof -
  let ?m = "min (length (key a)) (length (key b))"
  have len: "unat (if key_len a < key_len b then key_len a else key_len b) = ?m"
    using assms by (auto simp: word_less_nat_alt)
  have lens: "key_len a < key_len b \<longleftrightarrow> length (key a) < length (key b)"
    "key_len b < key_len a \<longleftrightarrow> length (key b) < length (key a)"
    using assms by (auto simp: word_less_nat_alt)
  have m: "memcmp (key a) (key b) ?m =
      (if take ?m (key a) < take ?m (key b) then - 1
       else if take ?m (key a) = take ?m (key b) then 0 else 1)"
    unfolding memcmp_def by (rule memcmp_bytes_lex) simp
  show ?thesis
  proof (cases "take ?m (key a) = take ?m (key b)")
    case True
    with lex_prefix_cases [OF True] m lens len show ?thesis
      by (auto simp: compare_items_def Let_def)
  next
    case False
    show ?thesis
    proof (cases "take ?m (key a) < take ?m (key b)")
      case True
      then have "key a < key b" by (rule lex_take_less)
      with True m len show ?thesis by (auto simp: compare_items_def Let_def)
    next
      case F2: False
      with False have "take ?m (key b) < take ?m (key a)" by auto
      then have "key b < key a" by (rule lex_take_less)
      with False F2 m len show ?thesis by (auto simp: compare_items_def Let_def)
    qed
  qed
qed

lemma compare_items_key_bytes:
  assumes "unat (key_len a) \<le> length (key a)" "unat (key_len b) \<le> length (key b)"
  shows "compare_items a b =
           (if key_bytes a < key_bytes b then - 1 else if key_bytes a = key_bytes b then 0 else 1)"
proof -
  let ?a = "a\<lparr>key := key_bytes a\<rparr>" and ?b = "b\<lparr>key := key_bytes b\<rparr>"
  have "compare_items a b = compare_items ?a ?b"
    by (simp add: compare_items_def memcmp_def key_bytes_def Let_def word_less_nat_alt
        min.absorb2 min.absorb1)
  also have "\<dots> = (if key ?a < key ?b then - 1 else if key ?a = key ?b then 0 else 1)"
    using assms by (intro compare_items_lex) (simp_all add: key_bytes_def)
  finally show ?thesis by simp
qed

lemma compare_items_le:
  "key_fits a \<Longrightarrow> key_fits b \<Longrightarrow> compare_items a b \<le> 0 \<longleftrightarrow> key_bytes a \<le> key_bytes b"
  by (auto simp: compare_items_key_bytes key_fits_def)

lemma compare_items_less:
  "key_fits a \<Longrightarrow> key_fits b \<Longrightarrow> compare_items a b < 0 \<longleftrightarrow> key_bytes a < key_bytes b"
  by (auto simp: compare_items_key_bytes key_fits_def)

lemma compare_items_greater:
  "key_fits a \<Longrightarrow> key_fits b \<Longrightarrow> compare_items a b > 0 \<longleftrightarrow> key_bytes b < key_bytes a"
  by (auto simp: compare_items_key_bytes key_fits_def)

lemma compare_items_eq:
  "key_fits a \<Longrightarrow> key_fits b \<Longrightarrow> compare_items a b = 0 \<longleftrightarrow> key_bytes a = key_bytes b"
  by (auto simp: compare_items_key_bytes key_fits_def)

subsection \<open>Sorting\<close>

lemma mset_insort_item [simp]: "mset (insort_item x ys) = add_mset x (mset ys)"
  by (induction ys) auto

lemma mset_qsort_items [simp]: "mset (qsort_items xs) = mset xs"
  by (induction xs) (auto simp: qsort_items_def)

lemma set_qsort_items [simp]: "set (qsort_items xs) = set xs"
  using mset_qsort_items [of xs] by (metis set_mset_mset)

lemma length_qsort_items [simp]: "length (qsort_items xs) = length xs"
  using mset_qsort_items [of xs] by (metis size_mset)

lemma set_insort_item [simp]: "set (insort_item x ys) = insert x (set ys)"
  using mset_insort_item [of x ys] by (metis set_mset_mset set_mset_add_mset_insert)

lemma sorted_insort_item:
  assumes "sorted (map key_bytes ys)" "key_fits x" "\<forall>y\<in>set ys. key_fits y"
  shows "sorted (map key_bytes (insort_item x ys))"
  using assms
proof (induction ys)
  case Nil
  show ?case by simp
next
  case (Cons y ys)
  show ?case
  proof (cases "compare_items x y \<le> 0")
    case True
    with Cons.prems have "key_bytes x \<le> key_bytes y" by (simp add: compare_items_le)
    with True Cons.prems show ?thesis by auto
  next
    case False
    with Cons.prems have "key_bytes y \<le> key_bytes x"
      using compare_items_le [of x y] by auto
    with False Cons show ?thesis by auto
  qed
qed

lemma sorted_qsort_items:
  "\<forall>x\<in>set xs. key_fits x \<Longrightarrow> sorted (map key_bytes (qsort_items xs))"
proof (induction xs)
  case Nil
  show ?case by (simp add: qsort_items_def)
next
  case (Cons x xs)
  then have "sorted (map key_bytes (qsort_items xs))" by simp
  moreover have "\<forall>y\<in>set (qsort_items xs). key_fits y" using Cons.prems by simp
  ultimately have "sorted (map key_bytes (insort_item x (qsort_items xs)))"
    using Cons.prems by (intro sorted_insort_item) auto
  then show ?case by (simp add: qsort_items_def)
qed

subsection \<open>Binary search\<close>

lemma bsearch_loop_sound:
  assumes "sorted (map key_bytes base)" "\<forall>x\<in>set base. key_fits x" "key_fits k"
  shows "case bsearch_loop k base l u of
           None \<Rightarrow> \<forall>i. l \<le> i \<and> i < u \<and> u \<le> length base \<longrightarrow> key_bytes (base ! i) \<noteq> key_bytes k
         | Some it \<Rightarrow> it \<in> set base \<and> key_bytes it = key_bytes k"
  using assms
proof (induction k base l u rule: bsearch_loop.induct)
  case (1 k base l u)
  show ?case
  proof (cases "l < u \<and> u \<le> length base")
    case False
    then show ?thesis by (subst bsearch_loop.simps) auto
  next
    case True
    let ?idx = "(l + u) div 2"
    have idx: "l \<le> ?idx" "?idx < u" "?idx < length base" using True by auto
    then have fit: "key_fits (base ! ?idx)" using "1.prems" by auto
    have mono: "\<And>i j. i \<le> j \<Longrightarrow> j < length base \<Longrightarrow> key_bytes (base ! i) \<le> key_bytes (base ! j)"
      using "1.prems"(1) by (auto simp: sorted_iff_nth_mono)
    consider (lt) "compare_items k (base ! ?idx) < 0"
      | (gt) "\<not> compare_items k (base ! ?idx) < 0" "compare_items k (base ! ?idx) > 0"
      | (eq) "compare_items k (base ! ?idx) = 0" by linarith
    then show ?thesis
    proof cases
      case lt
      then have less: "key_bytes k < key_bytes (base ! ?idx)"
        using fit "1.prems" by (simp add: compare_items_less)
      have rec: "bsearch_loop k base l u = bsearch_loop k base l ?idx"
        using True lt by (subst bsearch_loop.simps) (simp add: Let_def)
      have IH: "case bsearch_loop k base l ?idx of
           None \<Rightarrow> \<forall>i. l \<le> i \<and> i < ?idx \<and> ?idx \<le> length base \<longrightarrow> key_bytes (base ! i) \<noteq> key_bytes k
         | Some it \<Rightarrow> it \<in> set base \<and> key_bytes it = key_bytes k"
        using "1.IH"(1) [OF True refl refl lt] "1.prems" by simp
      show ?thesis
      proof (cases "bsearch_loop k base l ?idx")
        case None
        have "key_bytes (base ! i) \<noteq> key_bytes k" if "l \<le> i" "i < u" for i
        proof (cases "i < ?idx")
          case True
          with IH None that idx show ?thesis by auto
        next
          case False
          then have "key_bytes (base ! ?idx) \<le> key_bytes (base ! i)"
            using mono [of ?idx i] that \<open>l < u \<and> u \<le> length base\<close> by auto
          with less show ?thesis by auto
        qed
        with rec None show ?thesis by auto
      next
        case (Some it)
        with IH rec show ?thesis by auto
      qed
    next
      case gt
      then have less: "key_bytes (base ! ?idx) < key_bytes k"
        using fit "1.prems" by (simp add: compare_items_greater)
      have rec: "bsearch_loop k base l u = bsearch_loop k base (?idx + 1) u"
        using True gt by (subst bsearch_loop.simps) (simp add: Let_def)
      have IH: "case bsearch_loop k base (?idx + 1) u of
           None \<Rightarrow> \<forall>i. ?idx + 1 \<le> i \<and> i < u \<and> u \<le> length base \<longrightarrow> key_bytes (base ! i) \<noteq> key_bytes k
         | Some it \<Rightarrow> it \<in> set base \<and> key_bytes it = key_bytes k"
        using "1.IH"(2) [OF True refl refl gt(1) gt(2)] "1.prems" by simp
      show ?thesis
      proof (cases "bsearch_loop k base (?idx + 1) u")
        case None
        have "key_bytes (base ! i) \<noteq> key_bytes k" if "l \<le> i" "i < u" for i
        proof (cases "?idx + 1 \<le> i")
          case True
          with IH None that \<open>l < u \<and> u \<le> length base\<close> show ?thesis by auto
        next
          case False
          then have "key_bytes (base ! i) \<le> key_bytes (base ! ?idx)"
            using mono [of i ?idx] idx by auto
          with less show ?thesis by auto
        qed
        with rec None show ?thesis by auto
      next
        case (Some it)
        with IH rec show ?thesis by auto
      qed
    next
      case eq
      then have "key_bytes k = key_bytes (base ! ?idx)"
        using fit "1.prems" by (simp add: compare_items_eq)
      moreover have "bsearch_loop k base l u = Some (base ! ?idx)"
        using True eq by (subst bsearch_loop.simps) (simp add: Let_def)
      ultimately show ?thesis using idx by auto
    qed
  qed
qed

lemma bsearch_found:
  assumes "sorted (map key_bytes base)" "distinct (map key_bytes base)"
    "\<forall>x\<in>set base. key_fits x" "key_fits k" "it \<in> set base" "key_bytes it = key_bytes k"
  shows "bsearch k base = Some it"
proof -
  from assms(5) obtain i where i: "i < length base" "base ! i = it"
    by (auto simp: in_set_conv_nth)
  have s: "case bsearch k base of
           None \<Rightarrow> \<forall>i. 0 \<le> i \<and> i < length base \<and> length base \<le> length base \<longrightarrow> key_bytes (base ! i) \<noteq> key_bytes k
         | Some it \<Rightarrow> it \<in> set base \<and> key_bytes it = key_bytes k"
    unfolding bsearch_def using assms(1,3,4) by (rule bsearch_loop_sound)
  show ?thesis
  proof (cases "bsearch k base")
    case None
    with s i assms(6) show ?thesis by auto
  next
    case (Some it')
    with s have "it' \<in> set base" "key_bytes it' = key_bytes it" using assms(6) by auto
    with assms(2,5) have "it' = it"
      by (metis distinct_map inj_onD)
    with Some show ?thesis by simp
  qed
qed

lemma bsearch_not_found:
  assumes "sorted (map key_bytes base)" "\<forall>x\<in>set base. key_fits x" "key_fits k"
    "key_bytes k \<notin> key_bytes ` set base"
  shows "bsearch k base = None"
proof -
  have s: "case bsearch k base of
           None \<Rightarrow> \<forall>i. 0 \<le> i \<and> i < length base \<and> length base \<le> length base \<longrightarrow> key_bytes (base ! i) \<noteq> key_bytes k
         | Some it \<Rightarrow> it \<in> set base \<and> key_bytes it = key_bytes k"
    unfolding bsearch_def using assms(1,2,3) by (rule bsearch_loop_sound)
  show ?thesis
  proof (cases "bsearch k base")
    case None
    then show ?thesis .
  next
    case (Some it')
    with s have "it' \<in> set base" "key_bytes it' = key_bytes k" by auto
    then have "key_bytes k \<in> key_bytes ` set base" by (metis imageI)
    with assms(4) show ?thesis by simp
  qed
qed

subsection \<open>Offsets without wrap-around\<close>

lemma unat_add_no_wrap:
  fixes a b :: size_t
  shows "unat a + unat b < 2 ^ 64 \<Longrightarrow> unat (a + b) = unat a + unat b"
  using unat_add_lem [of a b] by simp

lemma unat_mult_no_wrap:
  fixes a b :: size_t
  shows "unat a * unat b < 2 ^ 64 \<Longrightarrow> unat (a * b) = unat a * unat b"
  using unat_mult_lem [of a b] by simp

lemma align_up_nat_ge: "n \<le> align_up_nat n"
  unfolding align_up_nat_def by presburger

lemma align_up_nat_le: "align_up_nat n \<le> n + 7"
proof -
  have "n mod 8 \<noteq> 0 \<Longrightarrow> 8 - n mod 8 \<le> 7" by arith
  then show ?thesis by (auto simp: align_up_nat_def)
qed

lemma align_up_nat_mod: "align_up_nat n mod 8 = 0"
  unfolding align_up_nat_def by presburger

lemma unat_align_up:
  assumes "align_up_nat (unat offset) < 2 ^ 64"
  shows "unat (align_up offset) = align_up_nat (unat offset)"
proof -
  have r: "unat (offset mod 8) = unat offset mod 8" by (simp add: unat_mod)
  show ?thesis
  proof (cases "offset mod 8 = 0")
    case True
    with r show ?thesis by (simp add: align_up_def align_up_nat_def)
  next
    case False
    then have nz: "unat offset mod 8 \<noteq> 0" using r by (metis unat_eq_zero)
    have le: "offset mod 8 \<le> 8"
      using r by (simp add: word_le_nat_alt) 
    have sub: "unat (8 - offset mod 8) = 8 - unat offset mod 8"
      using le r by (simp add: unat_sub)
    have "unat offset + (8 - unat offset mod 8) < 2 ^ 64"
      using assms nz by (simp add: align_up_nat_def)
    then have "unat (offset + (8 - offset mod 8)) = unat offset + (8 - unat offset mod 8)"
      using sub unat_add_no_wrap [of offset "8 - offset mod 8"] by simp
    with False nz show ?thesis by (simp add: align_up_def align_up_nat_def)
  qed
qed

lemma align_up_aligned: "align_up offset mod 8 = 0"
proof -
  have r: "unat (offset mod 8) = unat offset mod 8" by (simp add: unat_mod)
  show ?thesis
  proof (cases "offset mod 8 = 0")
    case True
    then show ?thesis by (simp add: align_up_def)
  next
    case False
    have "unat (offset + (8 - offset mod 8)) mod 8 = 0"
    proof -
      have le: "offset mod 8 \<le> 8" using r by (simp add: word_le_nat_alt)
      have sub: "unat (8 - offset mod 8) = 8 - unat offset mod 8"
        using le r by (simp add: unat_sub)
      have "unat (offset + (8 - offset mod 8))
              = (unat offset + (8 - unat offset mod 8)) mod 2 ^ 64"
        using sub by (simp add: unat_word_ariths)
      moreover have "(unat offset + (8 - unat offset mod 8)) mod 8 = 0" by presburger
      moreover have "(8::nat) dvd 2 ^ 64" by simp
      ultimately show ?thesis by (metis mod_mod_cancel)
    qed
    then have "unat ((offset + (8 - offset mod 8)) mod 8) = 0" by (simp add: unat_mod)
    then have "(offset + (8 - offset mod 8)) mod 8 = 0" by (simp add: unat_eq_zero)
    with False show ?thesis by (simp add: align_up_def)
  qed
qed

lemma align_up_padding: "unat (align_up offset - offset) \<le> 8"
proof -
  have r: "unat (offset mod 8) = unat offset mod 8" by (simp add: unat_mod)
  have le: "offset mod 8 \<le> 8" using r by (simp add: word_le_nat_alt)
  have "unat (8 - offset mod 8) = 8 - unat offset mod 8"
    using le r by (simp add: unat_sub)
  then show ?thesis by (simp add: align_up_def Let_def)
qed

lemma arrays_end_ge: "offset \<le> arrays_end offset its"
proof (induction its arbitrary: offset)
  case Nil
  show ?case by simp
next
  case (Cons it its)
  have "offset \<le> align_up_nat offset + unat (array_len it) * unat (type_size (type it))"
    using align_up_nat_ge [of offset] by simp
  also have "\<dots> \<le> arrays_end (align_up_nat offset + unat (array_len it) * unat (type_size (type it))) its"
    by (rule Cons.IH)
  finally show ?case by simp
qed

subsection \<open>The packer changes the offsets only\<close>

lemma pack_keys_map:
  assumes "\<And>it v. f (it\<lparr>key_start := v\<rparr>) = f it"
  shows "map f (fst (pack_keys offset its)) = map f its"
  by (induction its arbitrary: offset) (simp_all add: assms split_beta)

lemma pack_arrays_map:
  assumes "\<And>it v. f (it\<lparr>array_start := v\<rparr>) = f it"
  shows "map f (fst (pack_arrays offset its)) = map f its"
  by (induction its arbitrary: offset) (simp_all add: assms Let_def split_beta)

lemma length_pack_keys [simp]: "length (fst (pack_keys offset its)) = length its"
  by (induction its arbitrary: offset) (simp_all add: split_beta)

lemma length_pack_arrays [simp]: "length (fst (pack_arrays offset its)) = length its"
  by (induction its arbitrary: offset) (simp_all add: Let_def split_beta)

lemma pack_keys_set:
  "d \<in> set (fst (pack_keys offset its)) \<Longrightarrow> \<exists>x\<in>set its. \<exists>v. d = x\<lparr>key_start := v\<rparr>"
  by (induction its arbitrary: offset) (auto simp: split_beta)

lemma pack_arrays_set:
  "d \<in> set (fst (pack_arrays offset its)) \<Longrightarrow> \<exists>x\<in>set its. \<exists>v. d = x\<lparr>array_start := v\<rparr>"
  by (induction its arbitrary: offset) (auto simp: Let_def split_beta)

lemma key_bytes_upd [simp]:
  "key_bytes (it\<lparr>key_start := v\<rparr>) = key_bytes it"
  "key_bytes (it\<lparr>array_start := v\<rparr>) = key_bytes it"
  by (simp_all add: key_bytes_def)

lemma array_bytes_upd [simp]:
  "array_bytes (it\<lparr>key_start := v\<rparr>) = array_bytes it"
  "array_bytes (it\<lparr>array_start := v\<rparr>) = array_bytes it"
  by (simp_all add: array_bytes_def)

lemma entry_upd [simp]:
  "entry (it\<lparr>key_start := v\<rparr>) = entry it"
  "entry (it\<lparr>array_start := v\<rparr>) = entry it"
  by (simp_all add: entry_def)

lemma key_fits_upd [simp]:
  "key_fits (it\<lparr>key_start := v\<rparr>) = key_fits it"
  "key_fits (it\<lparr>array_start := v\<rparr>) = key_fits it"
  by (simp_all add: key_fits_def)

lemma item_ok_upd [simp]:
  "item_ok (it\<lparr>key_start := v\<rparr>) = item_ok it"
  "item_ok (it\<lparr>array_start := v\<rparr>) = item_ok it"
  by (simp_all add: item_ok_def)

subsection \<open>What the writer writes\<close>

lemma write_descriptors_image:
  "write_descriptors its (Some f) = (None, Some (f @ concat (map descriptor_bytes its)))"
  by (induction its arbitrary: f) (simp_all add: fwrite1_def)

lemma write_keys_image:
  assumes "\<forall>it\<in>set its. key_len it \<noteq> 0"
  shows "write_keys offset its (Some f)
           = (None, Some (f @ concat (map key_bytes its)), snd (pack_keys offset its))"
  using assms
  by (induction its arbitrary: f offset)
     (simp_all add: fwrite1_def key_bytes_def unat_eq_zero split: prod.splits)

lemma write_arrays_step:
  assumes pad: "unat (array_start it - offset) \<le> 8"
    and rest: "\<And>g. write_arrays (array_start it + array_len it * type_size (type it)) its (Some g)
                 = (None, Some (g @ R))"
  shows "write_arrays offset (it # its) (Some f)
           = (None, Some (f @ replicate (unat (array_start it - offset)) 0 @ array_bytes it @ R))"
proof -
  have tk: "min (unat (array_start it - offset)) 8 = unat (array_start it - offset)"
    using pad by simp
  show ?thesis
  proof (cases "array_start it - offset = 0")
    case p0: True
    show ?thesis
    proof (cases "array_len it * type_size (type it) = 0")
      case True
      from p0 True rest show ?thesis
        by (simp add: Let_def array_bytes_def)
    next
      case False
      from p0 False rest show ?thesis
        by (simp add: Let_def fwrite1_def array_bytes_def unat_eq_zero word_neq_0_conv [symmetric])
    qed
  next
    case p1: False
    then have pos: "0 < array_start it - offset"
      using word_neq_0_conv [of "array_start it - offset"] by blast
    have nz: "unat (array_start it - offset) \<noteq> 0" using p1 by (simp add: unat_eq_zero)
    show ?thesis
    proof (cases "array_len it * type_size (type it) = 0")
      case True
      from True rest [of "f @ replicate (unat (array_start it - offset)) 0"] show ?thesis
        unfolding write_arrays.simps Let_def fwrite1_def
        by (simp add: pos nz tk array_bytes_def del: right_minus_eq)
    next
      case False
      then have pos2: "0 < array_len it * type_size (type it)"
        using word_neq_0_conv [of "array_len it * type_size (type it)"] by blast
      have nz2: "unat (array_len it * type_size (type it)) \<noteq> 0"
        using False by (simp add: unat_eq_zero)
      from rest [of "f @ replicate (unat (array_start it - offset)) 0
                      @ take (unat (array_len it * type_size (type it))) (array it)"]
      show ?thesis
        unfolding write_arrays.simps Let_def fwrite1_def
        by (simp add: pos nz tk pos2 nz2 array_bytes_def del: right_minus_eq)
    qed
  qed
qed

lemma write_arrays_image:
  "write_arrays offset (fst (pack_arrays offset its)) (Some f)
     = (None, Some (f @ arrays_image offset (fst (pack_arrays offset its))))"
proof (induction its arbitrary: f offset)
  case Nil
  show ?case by simp
next
  case (Cons it its)
  let ?sz = "array_len it * type_size (type it)"
  let ?its' = "fst (pack_arrays (align_up offset + ?sz) its)"
  let ?it' = "it\<lparr>array_start := align_up offset\<rparr>"
  have "write_arrays offset (?it' # ?its') (Some f)
      = (None, Some (f @ replicate (unat (array_start ?it' - offset)) 0
           @ array_bytes ?it'
           @ arrays_image (align_up offset + ?sz) ?its'))"
    by (rule write_arrays_step) (simp_all add: align_up_padding Cons.IH)
  then show ?case by (simp add: Let_def split_beta)
qed

lemma array_fits_upd [simp]:
  "array_fits (it\<lparr>key_start := v\<rparr>) = array_fits it"
  "array_fits (it\<lparr>array_start := v\<rparr>) = array_fits it"
  by (simp_all add: array_fits_def)

subsection \<open>Where the keys are\<close>

lemma snd_pack_keys_unat:
  "unat offset + sum_list (map (\<lambda>it. unat (key_len it)) its) < 2 ^ 64 \<Longrightarrow>
   unat (snd (pack_keys offset its)) = unat offset + sum_list (map (\<lambda>it. unat (key_len it)) its)"
proof (induction its arbitrary: offset)
  case Nil
  show ?case by simp
next
  case (Cons it its)
  have a: "unat (offset + key_len it) = unat offset + unat (key_len it)"
    using Cons.prems by (intro unat_add_no_wrap) simp
  with Cons.prems have "unat (snd (pack_keys (offset + key_len it) its))
      = unat (offset + key_len it) + sum_list (map (\<lambda>it. unat (key_len it)) its)"
    by (intro Cons.IH) simp
  with a show ?case by (simp add: split_beta)
qed

lemma length_key_bytes: "key_fits it \<Longrightarrow> length (key_bytes it) = unat (key_len it)"
  by (simp add: key_fits_def key_bytes_def)

lemma length_concat_key_bytes:
  "\<forall>it\<in>set its. key_fits it \<Longrightarrow>
   length (concat (map key_bytes its)) = sum_list (map (\<lambda>it. unat (key_len it)) its)"
  by (induction its) (simp_all add: length_key_bytes)

lemma keys_geometry:
  assumes "unat offset + sum_list (map (\<lambda>it. unat (key_len it)) its) < 2 ^ 64"
    and "length pre = unat offset" and "\<forall>it\<in>set its. key_fits it"
    and "d \<in> set (fst (pack_keys offset its))"
  shows "take (unat (key_len d))
           (drop (unat (key_start d)) (pre @ concat (map key_bytes its) @ post)) = key_bytes d \<and>
         unat (key_start d) + unat (key_len d)
           \<le> unat offset + sum_list (map (\<lambda>it. unat (key_len it)) its)"
  using assms
proof (induction its arbitrary: offset pre)
  case Nil
  then show ?case by simp
next
  case (Cons it its)
  have fit: "length (key_bytes it) = unat (key_len it)"
    using Cons.prems(3) by (simp add: length_key_bytes)
  have a: "unat (offset + key_len it) = unat offset + unat (key_len it)"
    using Cons.prems(1) by (intro unat_add_no_wrap) simp
  from Cons.prems(4) consider (hd) "d = it\<lparr>key_start := offset\<rparr>"
    | (tl) "d \<in> set (fst (pack_keys (offset + key_len it) its))"
    by (auto simp: split_beta)
  then show ?case
  proof cases
    case hd
    with fit Cons.prems(2) show ?thesis by simp
  next
    case tl
    have "take (unat (key_len d))
           (drop (unat (key_start d)) ((pre @ key_bytes it) @ concat (map key_bytes its) @ post))
            = key_bytes d \<and>
         unat (key_start d) + unat (key_len d)
           \<le> unat (offset + key_len it) + sum_list (map (\<lambda>it. unat (key_len it)) its)"
      using Cons.prems a fit tl by (intro Cons.IH) simp_all
    with a show ?thesis by simp
  qed
qed

subsection \<open>Where the arrays are\<close>

lemma snd_pack_arrays_unat:
  "arrays_end (unat offset) its < 2 ^ 64 \<Longrightarrow>
   unat (snd (pack_arrays offset its)) = arrays_end (unat offset) its"
proof (induction its arbitrary: offset)
  case Nil
  show ?case by simp
next
  case (Cons it its)
  let ?p = "unat (array_len it) * unat (type_size (type it))"
  have ge: "align_up_nat (unat offset) + ?p \<le> arrays_end (align_up_nat (unat offset) + ?p) its"
    by (rule arrays_end_ge)
  with Cons.prems have b: "align_up_nat (unat offset) + ?p < 2 ^ 64" by simp
  then have al: "unat (align_up offset) = align_up_nat (unat offset)"
    by (intro unat_align_up) simp
  have pr: "unat (array_len it * type_size (type it)) = ?p"
    using b by (intro unat_mult_no_wrap) simp
  have sm: "unat (align_up offset + array_len it * type_size (type it))
              = align_up_nat (unat offset) + ?p"
    using al pr b unat_add_no_wrap [of "align_up offset" "array_len it * type_size (type it)"]
    by simp
  have "unat (snd (pack_arrays (align_up offset + array_len it * type_size (type it)) its))
          = arrays_end (unat (align_up offset + array_len it * type_size (type it))) its"
    using Cons.prems sm by (intro Cons.IH) simp
  with sm show ?case by (simp add: Let_def split_beta)
qed

lemma arrays_geometry:
  assumes "arrays_end (unat offset) its < 2 ^ 64"
    and "length pre = unat offset" and "\<forall>it\<in>set its. array_fits it"
    and "d \<in> set (fst (pack_arrays offset its))"
  shows "take (unat (array_len d * type_size (type d)))
           (drop (unat (array_start d))
              (pre @ arrays_image offset (fst (pack_arrays offset its)) @ post)) = array_bytes d \<and>
         unat (array_start d) + unat (array_len d * type_size (type d))
           \<le> arrays_end (unat offset) its \<and>
         unat (array_len d * type_size (type d))
           = unat (array_len d) * unat (type_size (type d))"
  using assms
proof (induction its arbitrary: offset pre)
  case Nil
  then show ?case by simp
next
  case (Cons it its)
  let ?p = "unat (array_len it) * unat (type_size (type it))"
  let ?sz = "array_len it * type_size (type it)"
  let ?its' = "fst (pack_arrays (align_up offset + ?sz) its)"
  let ?it' = "it\<lparr>array_start := align_up offset\<rparr>"
  let ?pad = "replicate (unat (align_up offset - offset)) (0::byte)"
  have ge: "align_up_nat (unat offset) + ?p \<le> arrays_end (align_up_nat (unat offset) + ?p) its"
    by (rule arrays_end_ge)
  with Cons.prems(1) have b: "align_up_nat (unat offset) + ?p < 2 ^ 64" by simp
  then have al: "unat (align_up offset) = align_up_nat (unat offset)"
    by (intro unat_align_up) simp
  have pr: "unat ?sz = ?p"
    using b by (intro unat_mult_no_wrap) simp
  have sm: "unat (align_up offset + ?sz) = align_up_nat (unat offset) + ?p"
    using al pr b unat_add_no_wrap [of "align_up offset" ?sz] by simp
  have le: "offset \<le> align_up offset"
    using al align_up_nat_ge [of "unat offset"] by (simp add: word_le_nat_alt)
  have padlen: "unat (align_up offset - offset) = align_up_nat (unat offset) - unat offset"
    using le al by (simp add: unat_sub)
  have prelen: "length (pre @ ?pad) = unat (align_up offset)"
    using Cons.prems(2) padlen al align_up_nat_ge [of "unat offset"] by simp
  have ablen: "length (array_bytes it) = unat ?sz"
    using Cons.prems(3) pr by (simp add: array_bytes_def array_fits_def)
  have img: "pre @ arrays_image offset (fst (pack_arrays offset (it # its))) @ post
      = (pre @ ?pad @ array_bytes it) @ arrays_image (align_up offset + ?sz) ?its' @ post"
    by (simp add: Let_def split_beta)
  from Cons.prems(4) consider (hd) "d = ?it'" | (tl) "d \<in> set ?its'"
    by (auto simp: Let_def split_beta)
  then show ?case
  proof cases
    case hd
    let ?T = "arrays_image (align_up offset + ?sz) ?its' @ post"
    have d1: "drop (unat (align_up offset)) ((pre @ ?pad) @ (array_bytes it @ ?T))
                = array_bytes it @ ?T"
      using prelen by (metis append_eq_conv_conj)
    have t1: "take (unat ?sz) (array_bytes it @ ?T) = array_bytes it"
      using ablen by simp
    have img2: "pre @ arrays_image offset (fst (pack_arrays offset (it # its))) @ post
                  = (pre @ ?pad) @ (array_bytes it @ ?T)"
      by (simp add: Let_def split_beta)
    have "take (unat ?sz) (drop (unat (align_up offset))
        (pre @ arrays_image offset (fst (pack_arrays offset (it # its))) @ post)) = array_bytes it"
      by (simp only: img2 d1 t1)
    moreover have "unat (align_up offset) + unat ?sz \<le> arrays_end (unat offset) (it # its)"
      using ge al pr by simp
    ultimately show ?thesis using hd pr by simp
  next
    case tl
    have "take (unat (array_len d * type_size (type d)))
           (drop (unat (array_start d))
              ((pre @ ?pad @ array_bytes it) @ arrays_image (align_up offset + ?sz) ?its' @ post))
            = array_bytes d \<and>
         unat (array_start d) + unat (array_len d * type_size (type d))
           \<le> arrays_end (unat (align_up offset + ?sz)) its \<and>
         unat (array_len d * type_size (type d))
           = unat (array_len d) * unat (type_size (type d))"
    proof (intro Cons.IH)
      show "arrays_end (unat (align_up offset + ?sz)) its < 2 ^ 64"
        using Cons.prems(1) sm by simp
      show "length (pre @ ?pad @ array_bytes it) = unat (align_up offset + ?sz)"
        using prelen ablen sm al pr by simp
      show "\<forall>it\<in>set its. array_fits it" using Cons.prems(3) by simp
      show "d \<in> set ?its'" by (rule tl)
    qed
    moreover have "arrays_end (unat offset) (it # its) = arrays_end (unat (align_up offset + ?sz)) its"
      using sm by simp
    ultimately show ?thesis unfolding img by auto
  qed
qed

lemma length_arrays_image:
  assumes "arrays_end (unat offset) its < 2 ^ 64" and "\<forall>it\<in>set its. array_fits it"
  shows "unat offset + length (arrays_image offset (fst (pack_arrays offset its)))
           = arrays_end (unat offset) its"
  using assms
proof (induction its arbitrary: offset)
  case Nil
  show ?case by simp
next
  case (Cons it its)
  let ?p = "unat (array_len it) * unat (type_size (type it))"
  let ?sz = "array_len it * type_size (type it)"
  have ge: "align_up_nat (unat offset) + ?p \<le> arrays_end (align_up_nat (unat offset) + ?p) its"
    by (rule arrays_end_ge)
  with Cons.prems(1) have b: "align_up_nat (unat offset) + ?p < 2 ^ 64" by simp
  then have al: "unat (align_up offset) = align_up_nat (unat offset)"
    by (intro unat_align_up) simp
  have pr: "unat ?sz = ?p"
    using b by (intro unat_mult_no_wrap) simp
  have sm: "unat (align_up offset + ?sz) = align_up_nat (unat offset) + ?p"
    using al pr b unat_add_no_wrap [of "align_up offset" ?sz] by simp
  have le: "offset \<le> align_up offset"
    using al align_up_nat_ge [of "unat offset"] by (simp add: word_le_nat_alt)
  have padlen: "unat (align_up offset - offset) = align_up_nat (unat offset) - unat offset"
    using le al by (simp add: unat_sub)
  have ablen: "length (array_bytes it) = ?p"
    using Cons.prems(2) pr by (simp add: array_bytes_def array_fits_def)
  have "unat (align_up offset + ?sz)
          + length (arrays_image (align_up offset + ?sz) (fst (pack_arrays (align_up offset + ?sz) its)))
        = arrays_end (unat (align_up offset + ?sz)) its"
    using Cons.prems sm by (intro Cons.IH) simp_all
  then show ?case
    using sm padlen ablen align_up_nat_ge [of "unat offset"] by (simp add: Let_def split_beta)
qed

subsection \<open>Reading the header\<close>

lemma strncmp_eq_iff:
  "list_all (\<lambda>b. b \<noteq> 0) m \<Longrightarrow> strncmp h m (length m) = 0 \<longleftrightarrow> take (length m) h = m"
proof (induction m arbitrary: h)
  case Nil
  show ?case by simp
next
  case (Cons x m)
  then have x: "x \<noteq> 0" and m: "list_all (\<lambda>b. b \<noteq> 0) m" by simp_all
  show ?case
  proof (cases h)
    case Nil
    with x show ?thesis by (simp add: word_neq_0_conv)
  next
    case (Cons y h')
    with x Cons.IH [OF m, of h'] show ?thesis by (auto simp: Let_def)
  qed
qed

lemma length_header_image [simp]:
  "8 \<le> length (KAS_MAGIC c) \<Longrightarrow> length (header_image c n fsize) = 64"
  by (simp add: header_image_def)

lemma write_header_image:
  assumes "8 \<le> length (KAS_MAGIC c)" "file_p self = Some f"
  shows "kastore_write_header c self
           = (None, self\<lparr>file_p := Some (f @ header_image c (num_items self) (file_size self))\<rparr>)"
proof -
  have "take 64 (header_image c (num_items self) (file_size self))
          = header_image c (num_items self) (file_size self)"
    using assms(1) by simp
  then show ?thesis
    using assms(2)
    by (simp add: kastore_write_header_def fwrite1_def Let_def header_image_def)
qed

lemma read_header_image:
  assumes ok: "consts_ok c" and f: "file_p self = Some (header_image c n fsize @ rest)"
    and n: "unat n < 2 ^ 32" and fs: "64 \<le> fsize"
  shows "kastore_read_header c self
           = (None, self\<lparr>file_version :=
                             (KAS_FILE_VERSION_MAJOR c,
                              uint (word_of_int (KAS_FILE_VERSION_MINOR c) :: 16 word)),
                           num_items := n, file_size := fsize\<rparr>)"
proof -
  let ?h = "header_image c n fsize"
  from ok have len: "length (KAS_MAGIC c) = 8" and nz: "list_all (\<lambda>b. b \<noteq> 0) (KAS_MAGIC c)"
    and maj: "0 \<le> KAS_FILE_VERSION_MAJOR c" "KAS_FILE_VERSION_MAJOR c < 65536"
    by (simp_all add: consts_ok_def)
  have hl: "length ?h = 64" using len by simp
  have tk: "take 64 (?h @ rest) = ?h" using hl by simp
  have "take (length (KAS_MAGIC c)) ?h = KAS_MAGIC c"
    using len by (simp add: header_image_def)
  then have magic: "strncmp ?h (KAS_MAGIC c) 8 = 0"
    using strncmp_eq_iff [OF nz, of ?h] len by simp
  have v1: "load_u16 (drop 8 ?h) = word_of_int (KAS_FILE_VERSION_MAJOR c)"
    using len by (simp add: header_image_def)
  have v2: "load_u16 (drop 10 ?h) = word_of_int (KAS_FILE_VERSION_MINOR c)"
    using len by (simp add: header_image_def)
  have v3: "load_u32 (drop 12 ?h) = ucast n"
    using len by (simp add: header_image_def)
  have v4: "load_u64 (drop 16 ?h) = fsize"
    using len by (simp add: header_image_def)
  have m: "uint (word_of_int (KAS_FILE_VERSION_MAJOR c) :: 16 word) = KAS_FILE_VERSION_MAJOR c"
    using maj by (simp add: uint_word_of_int)
  have nn: "(ucast (ucast n :: 32 word) :: size_t) = n"
  proof -
    have "unat (ucast (ucast n :: 32 word) :: size_t) = unat n"
      using n by (simp add: unsigned_ucast_eq unsigned_take_bit_eq take_bit_nat_eq_self)
    then show ?thesis by (simp add: word_unat_eq_iff)
  qed
  have fs': "\<not> fsize < 64" using fs by simp
  show ?thesis
    using f hl
    by (simp add: kastore_read_header_def Let_def tk magic v1 v2 v3 v4 m nn fs')
qed

subsection \<open>Reading the descriptors\<close>

lemma relocate_fields [simp]:
  "type (relocate buf d) = type d"
  "key_start (relocate buf d) = key_start d"
  "key_len (relocate buf d) = key_len d"
  "array_start (relocate buf d) = array_start d"
  "array_len (relocate buf d) = array_len d"
  "key (relocate buf d) = drop (unat (key_start d)) buf"
  "array (relocate buf d) = drop (unat (array_start d)) buf"
  by (simp_all add: relocate_def)

lemma parse_descriptors_image:
  assumes "drop (unat doff) buf = concat (map descriptor_bytes ds) @ rest"
    and "unat doff + 64 * length ds < 2 ^ 64"
    and "\<forall>d\<in>set ds. 0 \<le> type d \<and> type d < 8 \<and> key_start d + key_len d \<le> fsize \<and>
                      array_start d + array_len d * type_size (type d) \<le> fsize"
  shows "parse_descriptors buf fsize doff (replicate (length ds) kaitem_zero)
           = (None, map (relocate buf) ds)"
  using assms
proof (induction ds arbitrary: doff)
  case Nil
  show ?case by simp
next
  case (Cons d ds)
  let ?rest = "concat (map descriptor_bytes ds) @ rest"
  have here: "drop (unat doff) buf = descriptor_bytes d @ ?rest"
    using Cons.prems(1) by simp
  from Cons.prems(3) have ty: "0 \<le> type d" "type d < 8"
    and kb: "\<not> key_start d + key_len d > fsize"
    and ab: "\<not> array_start d + array_len d * type_size (type d) > fsize"
    by (simp_all add: not_less)
  have ty8: "uint (word_of_int (type d) :: byte) = type d"
    using ty by (simp add: uint_word_of_int)
  have tyw: "\<not> (word_of_int (type d) :: byte) \<ge> 8"
    using ty8 ty by (simp add: word_le_def)
  have nxt: "unat (doff + 64) = unat doff + 64"
    using Cons.prems(2) unat_add_no_wrap [of doff 64] by simp
  have "drop (unat (doff + 64)) buf = drop 64 (drop (unat doff) buf)"
    by (simp add: nxt add.commute)
  also have "\<dots> = ?rest" by (simp add: here)
  finally have tail: "drop (unat (doff + 64)) buf = ?rest" .
  have IH: "parse_descriptors buf fsize (doff + 64) (replicate (length ds) kaitem_zero)
              = (None, map (relocate buf) ds)"
    using Cons.prems tail nxt by (intro Cons.IH) simp_all
  have rec: "kaitem_zero\<lparr>type := type d, key_start := key_start d, key_len := key_len d,
           key := drop (unat (key_start d)) buf, array_start := array_start d,
           array_len := array_len d, array := drop (unat (array_start d)) buf\<rparr> = relocate buf d"
    by (cases d) (simp add: relocate_def kaitem_zero_def)
  have f1: "load_u8 (drop (unat doff) buf) = word_of_int (type d)"
    and f2: "load_u64 (drop 8 (drop (unat doff) buf)) = key_start d"
    and f3: "load_u64 (drop 16 (drop (unat doff) buf)) = key_len d"
    and f4: "load_u64 (drop 24 (drop (unat doff) buf)) = array_start d"
    and f5: "load_u64 (drop 32 (drop (unat doff) buf)) = array_len d"
    by (simp_all only: here descriptor_fields)
  show ?case
    using kb ab tyw
    by (simp add: f1 f2 f3 f4 f5 Let_def ty8 IH rec del: drop_drop)
qed

subsection \<open>The packing walk of the reader\<close>

lemma check_keys_relocate [simp]: "check_keys offset (map (relocate buf) ds) = check_keys offset ds"
  by (induction ds arbitrary: offset) simp_all

lemma check_arrays_relocate [simp]:
  "check_arrays offset (map (relocate buf) ds) = check_arrays offset ds"
  by (induction ds arbitrary: offset) (simp_all add: Let_def)

lemma check_keys_pack_keys:
  "check_keys offset (fst (pack_keys offset its)) = Some (snd (pack_keys offset its))"
  by (induction its arbitrary: offset) (simp_all add: split_beta)

lemma check_keys_pack_arrays [simp]:
  "check_keys offset (fst (pack_arrays offset' its)) = check_keys offset its"
  by (induction its arbitrary: offset offset') (simp_all add: split_beta Let_def)

lemma check_arrays_pack_arrays:
  "check_arrays offset (fst (pack_arrays offset its)) = Some (snd (pack_arrays offset its))"
  by (induction its arbitrary: offset) (simp_all add: split_beta Let_def)

lemma snd_pack_keys_pack_arrays [simp]:
  "snd (pack_keys offset (fst (pack_arrays offset' its))) = snd (pack_keys offset its)"
  by (induction its arbitrary: offset offset') (simp_all add: split_beta Let_def)

subsection \<open>The file that close writes\<close>

lemma item_ok_fits: "item_ok it \<Longrightarrow> key_fits it \<and> array_fits it"
  by (simp add: item_ok_def key_fits_def array_fits_def)

lemma packed_set:
  assumes "d \<in> set (packed its)"
  shows "\<exists>x\<in>set its. \<exists>v w. d = x\<lparr>key_start := v, array_start := w\<rparr>"
proof -
  from assms obtain y w where y: "y \<in> set (fst (pack_keys (64 + of_nat (length its) * 64) its))"
    "d = y\<lparr>array_start := w\<rparr>"
    unfolding packed_def using pack_arrays_set by blast
  then obtain x v where "x \<in> set its" "y = x\<lparr>key_start := v\<rparr>"
    using pack_keys_set by blast
  with y show ?thesis by auto
qed

lemma packed_map:
  assumes "\<And>it v. f (it\<lparr>key_start := v\<rparr>) = f it" "\<And>it v. f (it\<lparr>array_start := v\<rparr>) = f it"
  shows "map f (packed its) = map f its"
  unfolding packed_def by (simp add: pack_arrays_map pack_keys_map assms)

lemma length_packed [simp]: "length (packed its) = length its"
  by (simp add: packed_def)

lemma active_items_append:
  "length xs = unat (num_items self) \<Longrightarrow> active_items (self\<lparr>items := xs @ ys\<rparr>) = xs"
  by (simp add: active_items_def)

lemma length_active_items:
  "unat (num_items self) \<le> length (items self) \<Longrightarrow>
   length (active_items self) = unat (num_items self)"
  by (simp add: active_items_def)

lemma snd_pack_keys_pack_keys [simp]:
  "snd (pack_keys offset (fst (pack_keys offset' its))) = snd (pack_keys offset its)"
  by (induction its arbitrary: offset offset') (simp_all add: split_beta)

lemma write_file_image:
  assumes magic: "8 \<le> length (KAS_MAGIC c)" and fil: "file_p self = Some []"
    and len: "unat (num_items self) \<le> length (items self)"
    and ok: "\<forall>it\<in>set (active_items self). key_len it \<noteq> 0"
  shows "fst (kastore_write_file c self) = None \<and>
         file_p (snd (kastore_write_file c self))
           = Some (file_image c (qsort_items (active_items self))) \<and>
         active_items (snd (kastore_write_file c self))
           = packed (qsort_items (active_items self)) \<and>
         file_size (snd (kastore_write_file c self))
           = snd (pack_arrays
                    (snd (pack_keys (64 + num_items self * 64) (qsort_items (active_items self))))
                    (fst (pack_keys (64 + num_items self * 64) (qsort_items (active_items self)))))"
proof -
  define S where "S = qsort_items (active_items self)"
  define n where "n = num_items self"
  define slack where "slack = drop (unat n) (items self)"
  define off0 where "off0 = 64 + n * 64"
  define P1 where "P1 = fst (pack_keys off0 S)"
  define off1 where "off1 = snd (pack_keys off0 S)"
  define P where "P = fst (pack_arrays off1 P1)"
  define fs where "fs = snd (pack_arrays off1 P1)"
  have lS: "length S = unat n"
    using len by (simp add: S_def n_def length_active_items)
  have nS: "(of_nat (length S) :: size_t) = n" using lS by simp
  have lP: "length P = unat n" using lS by (simp add: P_def P1_def)
  have P: "packed S = P"
    by (simp add: packed_def nS P_def P1_def off1_def off0_def)
  define self0 where "self0 = self\<lparr>items := S @ slack\<rparr>"
  have n0: "num_items self0 = n" by (simp add: self0_def n_def)
  have a0: "active_items self0 = S" using lS by (simp add: active_items_def self0_def n_def)
  have d0: "drop (unat n) (items self0) = slack" using lS by (simp add: self0_def)
  define self1 where "self1 = self0\<lparr>items := P @ slack, file_size := fs\<rparr>"
  have pack: "kastore_pack_items self0 = (None, self1)"
    unfolding kastore_pack_items_def Let_def a0 n0 d0 split_beta
    by (simp add: self1_def P_def P1_def fs_def off1_def off0_def)
  have n1: "num_items self1 = n" "file_size self1 = fs" "file_p self1 = Some []"
    using fil by (simp_all add: self1_def self0_def n_def)
  have a1: "active_items self1 = P" using lP by (simp add: active_items_def self1_def n0)
  define self2 where "self2 = self1\<lparr>file_p := Some (header_image c n fs)\<rparr>"
  have hdr: "kastore_write_header c self1 = (None, self2)"
    using write_header_image [OF magic, of self1 "[]"] n1 by (simp add: self2_def)
  have a2: "active_items self2 = P" "file_p self2 = Some (header_image c n fs)"
    "num_items self2 = n"
    using a1 n1 by (simp_all add: active_items_def self2_def)
  define self3 where
    "self3 = self2\<lparr>file_p := Some (header_image c n fs @ concat (map descriptor_bytes P))\<rparr>"
  have desc: "kastore_write_descriptors self2 = (None, self3)"
    by (simp add: kastore_write_descriptors_def a2 write_descriptors_image self3_def)
  have a3: "active_items self3 = P" "num_items self3 = n"
    "file_p self3 = Some (header_image c n fs @ concat (map descriptor_bytes P))"
    using a2 by (simp_all add: active_items_def self3_def)
  have nz: "\<forall>it\<in>set P. key_len it \<noteq> 0"
  proof
    fix d assume "d \<in> set P"
    then obtain x v w where "x \<in> set S" "d = x\<lparr>key_start := v, array_start := w\<rparr>"
      using packed_set [of d S] P by auto
    with ok show "key_len d \<noteq> 0" by (simp add: S_def)
  qed
  have o1: "snd (pack_keys off0 P) = off1"
    by (simp add: P_def P1_def off1_def)
  have keys: "write_keys off0 P (Some g) = (None, Some (g @ concat (map key_bytes P)), off1)" for g
    using write_keys_image [OF nz, of off0 g] o1 by simp
  have arrs: "write_arrays off1 P (Some g) = (None, Some (g @ arrays_image off1 P))" for g
    unfolding P_def by (rule write_arrays_image)
  define f where "f = header_image c n fs @ concat (map descriptor_bytes P)
            @ concat (map key_bytes P) @ arrays_image off1 P"
  have data: "kastore_write_data self3 = (None, self3\<lparr>file_p := Some f\<rparr>)"
    unfolding kastore_write_data_def Let_def a3 off0_def [symmetric]
    by (simp add: keys arrs f_def)
  have img: "file_image c S = f"
    unfolding file_image_def Let_def nS P off0_def [symmetric] off1_def [symmetric]
      P1_def [symmetric] fs_def [symmetric] f_def ..
  have "kastore_write_file c self = (None, self3\<lparr>file_p := Some f\<rparr>)"
    unfolding kastore_write_file_def Let_def S_def [symmetric] n_def [symmetric]
      slack_def [symmetric] self0_def [symmetric]
    by (simp only: pack hdr desc data prod.case option.case)
  moreover have "active_items (self3\<lparr>file_p := Some f\<rparr>) = P"
    using a3 by (simp add: active_items_def)
  moreover have "file_size (self3\<lparr>file_p := Some f\<rparr>) = fs"
    using n1 by (simp add: self3_def self2_def)
  ultimately show ?thesis
    using img P by (simp add: S_def fs_def P1_def off1_def off0_def n_def)
qed

subsection \<open>The layout of the written file\<close>

lemma length_concat_descriptors [simp]:
  "length (concat (map descriptor_bytes ds)) = 64 * length ds"
  by (induction ds) simp_all

lemma arrays_end_cong:
  "map array_len xs = map array_len ys \<Longrightarrow> map type xs = map type ys \<Longrightarrow>
   arrays_end offset xs = arrays_end offset ys"
proof (induction xs arbitrary: ys offset)
  case Nil
  then show ?case by simp
next
  case (Cons x xs)
  then obtain y ys' where ys: "ys = y # ys'" by (cases ys) auto
  with Cons.prems have "array_len x = array_len y" "type x = type y"
    "map array_len xs = map array_len ys'" "map type xs = map type ys'" by simp_all
  with Cons.IH [of ys'] ys show ?case by simp
qed

lemma arrays_end_pack_keys [simp]:
  "arrays_end offset (fst (pack_keys offset' its)) = arrays_end offset its"
  by (rule arrays_end_cong) (simp_all add: pack_keys_map)

text \<open>The facts about the layout, for the sorted items \<open>S\<close> of a store.\<close>

lemma file_image_layout:
  assumes magic: "8 \<le> length (KAS_MAGIC c)"
    and S: "\<forall>it\<in>set S. key_fits it \<and> array_fits it"
    and sz: "packed_size S < 2 ^ 64"
  defines "n \<equiv> (of_nat (length S) :: size_t)"
  defines "off0 \<equiv> 64 + n * 64"
  defines "off1 \<equiv> snd (pack_keys off0 S)"
  defines "fs \<equiv> snd (pack_arrays off1 (fst (pack_keys off0 S)))"
  shows "unat n = length S" and "unat off0 = 64 + 64 * length S"
    and "unat fs = packed_size S"
    and "length (file_image c S) = packed_size S"
    and "file_image c S = header_image c n fs @ concat (map descriptor_bytes (packed S))
           @ (concat (map key_bytes (packed S)) @ arrays_image off1 (packed S))"
    and "off0 \<le> fs" and "64 \<le> fs"
    and "\<forall>d\<in>set (packed S).
           take (unat (key_len d)) (drop (unat (key_start d)) (file_image c S)) = key_bytes d \<and>
           unat (key_start d) + unat (key_len d) \<le> packed_size S \<and>
           take (unat (array_len d * type_size (type d)))
             (drop (unat (array_start d)) (file_image c S)) = array_bytes d \<and>
           unat (array_start d) + unat (array_len d * type_size (type d)) \<le> packed_size S \<and>
           key_start d + key_len d \<le> fs \<and>
           array_start d + array_len d * type_size (type d) \<le> fs"
proof -
  define K where "K = sum_list (map (\<lambda>it. unat (key_len it)) S)"
  define P1 where "P1 = fst (pack_keys off0 S)"
  define P where "P = packed S"
  define H where "H = header_image c n fs"
  define D where "D = concat (map descriptor_bytes P)"
  define KB where "KB = concat (map key_bytes P)"
  define A where "A = arrays_image off1 P"
  have Pdef: "P = fst (pack_arrays off1 P1)"
    by (simp add: P_def packed_def P1_def off1_def off0_def n_def)
  have ps: "packed_size S = arrays_end (64 + 64 * length S + K) S"
    by (simp add: packed_size_def K_def)
  have ge: "64 + 64 * length S + K \<le> packed_size S"
    unfolding ps by (rule arrays_end_ge)
  have lenS: "length S < 2 ^ 64" using ge sz by simp
  show n: "unat n = length S"
    using lenS by (simp add: n_def unat_of_nat)
  have m64: "unat (n * 64) = 64 * length S"
    using unat_mult_no_wrap [of n 64] n ge sz by simp
  show o0: "unat off0 = 64 + 64 * length S"
    using unat_add_no_wrap [of 64 "n * 64"] m64 ge sz by (simp add: off0_def)
  have o1: "unat off1 = 64 + 64 * length S + K"
    unfolding off1_def K_def using snd_pack_keys_unat [of off0 S] o0 ge sz
    by (simp add: K_def)
  have ae: "arrays_end (unat off1) P1 = packed_size S"
    by (simp add: o1 ps P1_def)
  show fs: "unat fs = packed_size S"
    using snd_pack_arrays_unat [of off1 P1] ae sz by (simp add: fs_def P1_def)
  have fitS: "\<forall>it\<in>set S. key_fits it" using S by simp
  have fitP1: "\<forall>it\<in>set P1. array_fits it"
  proof
    fix y assume "y \<in> set P1"
    then obtain x v where "x \<in> set S" "y = x\<lparr>key_start := v\<rparr>"
      unfolding P1_def using pack_keys_set by blast
    with S show "array_fits y" by simp
  qed
  have KBS: "KB = concat (map key_bytes S)"
    unfolding KB_def P_def by (simp add: packed_map)
  have lH: "length H = 64" using magic by (simp add: H_def)
  have lD: "length D = 64 * length S" by (simp add: D_def P_def)
  have lKB: "length KB = K"
    unfolding KBS K_def using fitS by (rule length_concat_key_bytes)
  have lA: "unat off1 + length A = packed_size S"
    using length_arrays_image [of off1 P1] ae sz fitP1 by (simp add: A_def Pdef)
  show img: "file_image c S = header_image c n fs @ concat (map descriptor_bytes (packed S))
           @ (concat (map key_bytes (packed S)) @ arrays_image off1 (packed S))"
    by (simp add: file_image_def Let_def n_def off0_def off1_def fs_def)
  then have f: "file_image c S = H @ D @ KB @ A"
    by (simp add: H_def D_def KB_def A_def P_def)
  show "length (file_image c S) = packed_size S"
    using lH lD lKB lA o1 by (simp add: f)
  show "off0 \<le> fs" using o0 fs ge by (simp add: word_le_nat_alt)
  show "64 \<le> fs" using fs ge by (simp add: word_le_nat_alt)
  show "\<forall>d\<in>set (packed S).
           take (unat (key_len d)) (drop (unat (key_start d)) (file_image c S)) = key_bytes d \<and>
           unat (key_start d) + unat (key_len d) \<le> packed_size S \<and>
           take (unat (array_len d * type_size (type d)))
             (drop (unat (array_start d)) (file_image c S)) = array_bytes d \<and>
           unat (array_start d) + unat (array_len d * type_size (type d)) \<le> packed_size S \<and>
           key_start d + key_len d \<le> fs \<and>
           array_start d + array_len d * type_size (type d) \<le> fs"
  proof
    fix d assume "d \<in> set (packed S)"
    then have dP: "d \<in> set (fst (pack_arrays off1 P1))" using Pdef P_def by simp
    then obtain y w where y: "y \<in> set P1" "d = y\<lparr>array_start := w\<rparr>"
      using pack_arrays_set by blast
    have kg: "take (unat (key_len y))
           (drop (unat (key_start y)) ((H @ D) @ concat (map key_bytes S) @ A)) = key_bytes y \<and>
         unat (key_start y) + unat (key_len y)
           \<le> unat off0 + sum_list (map (\<lambda>it. unat (key_len it)) S)"
    proof (rule keys_geometry)
      show "unat off0 + sum_list (map (\<lambda>it. unat (key_len it)) S) < 2 ^ 64"
        using o0 ge sz by (simp add: K_def)
      show "length (H @ D) = unat off0" using lH lD o0 by simp
      show "\<forall>it\<in>set S. key_fits it" by (rule fitS)
      show "y \<in> set (fst (pack_keys off0 S))" using y(1) by (simp add: P1_def)
    qed
    have ag: "take (unat (array_len d * type_size (type d)))
           (drop (unat (array_start d))
              ((H @ D @ KB) @ arrays_image off1 (fst (pack_arrays off1 P1)) @ [])) = array_bytes d \<and>
         unat (array_start d) + unat (array_len d * type_size (type d))
           \<le> arrays_end (unat off1) P1 \<and>
         unat (array_len d * type_size (type d))
           = unat (array_len d) * unat (type_size (type d))"
    proof (rule arrays_geometry)
      show "arrays_end (unat off1) P1 < 2 ^ 64" using ae sz by simp
      show "length (H @ D @ KB) = unat off1" using lH lD lKB o1 by simp
      show "\<forall>it\<in>set P1. array_fits it" by (rule fitP1)
      show "d \<in> set (fst (pack_arrays off1 P1))" by (rule dP)
    qed
    have f1: "file_image c S = (H @ D) @ concat (map key_bytes S) @ A"
      using f KBS by simp
    have f2: "file_image c S = (H @ D @ KB) @ arrays_image off1 (fst (pack_arrays off1 P1)) @ []"
      using f by (simp add: A_def Pdef)
    have k1: "take (unat (key_len d)) (drop (unat (key_start d)) (file_image c S)) = key_bytes d"
      using kg y(2) unfolding f1 by simp
    have k2: "unat (key_start d) + unat (key_len d) \<le> packed_size S"
      using kg y(2) o0 ge by (simp add: K_def)
    have a1: "take (unat (array_len d * type_size (type d)))
             (drop (unat (array_start d)) (file_image c S)) = array_bytes d"
      using ag unfolding f2 by blast
    have a2: "unat (array_start d) + unat (array_len d * type_size (type d)) \<le> packed_size S"
      using ag ae by simp
    have k3: "key_start d + key_len d \<le> fs"
      using k2 fs sz unat_add_no_wrap [of "key_start d" "key_len d"]
      by (simp add: word_le_nat_alt)
    have a3: "array_start d + array_len d * type_size (type d) \<le> fs"
      using a2 fs sz unat_add_no_wrap [of "array_start d" "array_len d * type_size (type d)"]
      by (simp add: word_le_nat_alt)
    from k1 k2 a1 a2 k3 a3
    show "take (unat (key_len d)) (drop (unat (key_start d)) (file_image c S)) = key_bytes d \<and>
           unat (key_start d) + unat (key_len d) \<le> packed_size S \<and>
           take (unat (array_len d * type_size (type d)))
             (drop (unat (array_start d)) (file_image c S)) = array_bytes d \<and>
           unat (array_start d) + unat (array_len d * type_size (type d)) \<le> packed_size S \<and>
           key_start d + key_len d \<le> fs \<and>
           array_start d + array_len d * type_size (type d) \<le> fs"
      by blast
  qed
qed

subsection \<open>Opening the written file\<close>

lemma mmap_file_exact:
  assumes "file_p self = Some f" "unat (file_size self) = length f"
  shows "kastore_mmap_file self = (None, self\<lparr>read_buffer := Some f\<rparr>)"
proof -
  have "file_size self = of_nat (length f)" using assms(2) by (metis of_nat_unat ucast_id)
  then show ?thesis using assms by (simp add: kastore_mmap_file_def Let_def)
qed

lemma read_file_exact:
  assumes "file_p self = Some f" "unat (file_size self) = length f" "f \<noteq> []"
  shows "kastore_read_file self = (None, self\<lparr>read_buffer := Some f\<rparr>)"
  using assms by (simp add: kastore_read_file_def Let_def)

lemma read_descriptors_image:
  assumes buf: "read_buffer self = Some buf"
    and its: "items self = replicate (length P) kaitem_zero"
    and n: "unat (num_items self) = length P"
    and img: "drop 64 buf = concat (map descriptor_bytes P) @ rest"
    and fit: "64 + num_items self * 64 \<le> file_size self"
    and small: "64 + 64 * length P < 2 ^ 64"
    and bounds: "\<forall>d\<in>set P. 0 \<le> type d \<and> type d < 8 \<and> key_start d + key_len d \<le> file_size self \<and>
                      array_start d + array_len d * type_size (type d) \<le> file_size self"
    and keys: "check_keys (64 + num_items self * 64) P = Some o1"
    and arrays: "check_arrays o1 P = Some o2"
  shows "kastore_read_descriptors self = (None, self\<lparr>items := map (relocate buf) P\<rparr>)"
proof -
  have a: "active_items self = replicate (length P) kaitem_zero"
    using its n by (simp add: active_items_def)
  have d: "drop (unat (num_items self)) (items self) = []" using its n by simp
  have nf: "\<not> 64 + num_items self * 64 > file_size self" using fit by (simp add: not_less)
  have u64: "unat (64 :: size_t) = 64" by simp
  have p: "parse_descriptors buf (file_size self) 64 (replicate (length P) kaitem_zero)
             = (None, map (relocate buf) P)"
  proof (rule parse_descriptors_image [where rest = rest])
    show "drop (unat (64 :: size_t)) buf = concat (map descriptor_bytes P) @ rest"
      using img by simp
    show "unat (64 :: size_t) + 64 * length P < 2 ^ 64" using small by simp
    show "\<forall>d\<in>set P. 0 \<le> type d \<and> type d < 8 \<and> key_start d + key_len d \<le> file_size self \<and>
                      array_start d + array_len d * type_size (type d) \<le> file_size self"
      by (rule bounds)
  qed
  have a1: "active_items (self\<lparr>items := map (relocate buf) P\<rparr>) = map (relocate buf) P"
    using n by (simp add: active_items_def)
  show ?thesis
    unfolding kastore_read_descriptors_def Let_def
    by (simp add: buf nf a d p a1 keys arrays)
qed

lemma take_1_r: "take 1 ''r'' = ''r''" "take 1 ''w'' = ''w''" "''r'' \<noteq> ''w''"
  by simp_all

lemma open_file_image:
  assumes ok: "consts_ok c" and S: "\<forall>it\<in>set S. item_ok it"
    and n32: "length S < 2 ^ 32" and sz: "packed_size S < 2 ^ 64"
  shows "kastore_open c (Some (file_image c S)) ''r'' fl =
           (None, \<lparr>mode = KAS_READ c, flags = fl,
                   file_version = (KAS_FILE_VERSION_MAJOR c,
                                   uint (word_of_int (KAS_FILE_VERSION_MINOR c) :: 16 word)),
                   num_items = of_nat (length S),
                   items = map (relocate (file_image c S)) (packed S),
                   file_p = Some (file_image c S),
                   file_size = of_nat (packed_size S),
                   read_buffer = Some (file_image c S)\<rparr>)"
proof -
  define f where "f = file_image c S"
  define n where "n = (of_nat (length S) :: size_t)"
  define off0 where "off0 = 64 + n * 64"
  define off1 where "off1 = snd (pack_keys off0 S)"
  define fs where "fs = snd (pack_arrays off1 (fst (pack_keys off0 S)))"
  define P where "P = packed S"
  define ver where "ver = (KAS_FILE_VERSION_MAJOR c,
                                   uint (word_of_int (KAS_FILE_VERSION_MINOR c) :: 16 word))"
  have magic: "8 \<le> length (KAS_MAGIC c)" using ok by (simp add: consts_ok_def)
  have fits: "\<forall>it\<in>set S. key_fits it \<and> array_fits it" using S item_ok_fits by blast
  note defs = f_def P_def fs_def off1_def off0_def n_def
  have un: "unat n = length S"
    unfolding defs by (rule file_image_layout(1) [OF magic fits sz])
  have uo: "unat off0 = 64 + 64 * length S"
    unfolding defs by (rule file_image_layout(2) [OF magic fits sz])
  have fsz: "unat fs = packed_size S"
    unfolding defs by (rule file_image_layout(3) [OF magic fits sz])
  have lf: "length f = packed_size S"
    unfolding defs by (rule file_image_layout(4) [OF magic fits sz])
  have img: "f = header_image c n fs @ concat (map descriptor_bytes P)
           @ (concat (map key_bytes P) @ arrays_image off1 P)"
    unfolding defs by (rule file_image_layout(5) [OF magic fits sz])
  have o0fs: "off0 \<le> fs"
    unfolding defs by (rule file_image_layout(6) [OF magic fits sz])
  have fs64: "64 \<le> fs"
    unfolding defs by (rule file_image_layout(7) [OF magic fits sz])
  have geo: "\<forall>d\<in>set P.
           take (unat (key_len d)) (drop (unat (key_start d)) f) = key_bytes d \<and>
           unat (key_start d) + unat (key_len d) \<le> packed_size S \<and>
           take (unat (array_len d * type_size (type d)))
             (drop (unat (array_start d)) f) = array_bytes d \<and>
           unat (array_start d) + unat (array_len d * type_size (type d)) \<le> packed_size S \<and>
           key_start d + key_len d \<le> fs \<and>
           array_start d + array_len d * type_size (type d) \<le> fs"
    unfolding defs by (rule file_image_layout(8) [OF magic fits sz])
  have fs_of: "fs = of_nat (packed_size S)" using fsz by (metis of_nat_unat ucast_id)
  have f_ne: "f \<noteq> []" using lf fs64 fsz by (auto simp: word_le_nat_alt)
  define s2 where "s2 = kastore_zero\<lparr>mode := KAS_READ c, flags := fl, file_p := Some f\<rparr>"
  define s3 where "s3 = s2\<lparr>file_version := ver, num_items := n, file_size := fs\<rparr>"
  define s4 where "s4 = s3\<lparr>read_buffer := Some f\<rparr>"
  have hdr: "kastore_read_header c s2 = (None, s3)"
    unfolding s3_def ver_def
  proof (rule read_header_image [OF ok])
    show "file_p s2 = Some (header_image c n fs @ concat (map descriptor_bytes P)
           @ (concat (map key_bytes P) @ arrays_image off1 P))"
      using img by (simp add: s2_def)
    show "unat n < 2 ^ 32" using un n32 by simp
    show "64 \<le> fs" by (rule fs64)
  qed
  have s3f: "file_p s3 = Some f" "unat (file_size s3) = length f"
    using lf fsz by (simp_all add: s3_def s2_def)
  have buf: "(if mmap_gate c s3 then kastore_mmap_file s3 else kastore_read_file s3) = (None, s4)"
    using mmap_file_exact [OF s3f] read_file_exact [OF s3f f_ne] by (simp add: s4_def)
  have s4n: "num_items s4 = n" by (simp add: s4_def s3_def)
  have rd: "(if num_items s4 > 0
             then kastore_read_descriptors (s4\<lparr>items := replicate (unat (num_items s4)) kaitem_zero\<rparr>)
             else (None, s4)) = (None, s4\<lparr>items := map (relocate f) P\<rparr>)"
  proof (cases "n = 0")
    case True
    then have "length S = 0" using un by simp
    then have "P = []" by (simp add: P_def packed_def)
    with True show ?thesis by (simp add: s4n s4_def s3_def s2_def kastore_zero_def)
  next
    case False
    define s5 where "s5 = s4\<lparr>items := replicate (unat n) kaitem_zero\<rparr>"
    have lP: "length P = length S" by (simp add: P_def)
    have "kastore_read_descriptors s5 = (None, s5\<lparr>items := map (relocate f) P\<rparr>)"
    proof (rule read_descriptors_image)
      show "read_buffer s5 = Some f" by (simp add: s5_def s4_def)
      show "items s5 = replicate (length P) kaitem_zero" using un lP by (simp add: s5_def)
      show "unat (num_items s5) = length P" using un lP by (simp add: s5_def s4n)
      show "drop 64 f = concat (map descriptor_bytes P)
              @ (concat (map key_bytes P) @ arrays_image off1 P)"
        using magic by (simp add: img)
      show "64 + num_items s5 * 64 \<le> file_size s5"
        using o0fs by (simp add: s5_def s4_def s3_def off0_def)
      show "64 + 64 * length P < 2 ^ 64" using uo lP unsigned_less [of off0, where ?'a = nat]
        by simp
      show "\<forall>d\<in>set P. 0 \<le> type d \<and> type d < 8 \<and> key_start d + key_len d \<le> file_size s5 \<and>
                      array_start d + array_len d * type_size (type d) \<le> file_size s5"
      proof
        fix d assume d: "d \<in> set P"
        then obtain x v w where "x \<in> set S" "d = x\<lparr>key_start := v, array_start := w\<rparr>"
          using packed_set [of d S] P_def by auto
        with S have "0 \<le> type d \<and> type d < 8" by (auto simp: item_ok_def)
        moreover have "key_start d + key_len d \<le> fs \<and>
           array_start d + array_len d * type_size (type d) \<le> fs"
          using geo d by blast
        ultimately show "0 \<le> type d \<and> type d < 8 \<and> key_start d + key_len d \<le> file_size s5 \<and>
                      array_start d + array_len d * type_size (type d) \<le> file_size s5"
          by (simp add: s5_def s4_def s3_def)
      qed
      show "check_keys (64 + num_items s5 * 64) P = Some off1"
        by (simp add: s5_def s4n P_def packed_def n_def [symmetric] off0_def [symmetric]
            check_keys_pack_keys off1_def)
      show "check_arrays off1 P = Some fs"
        by (simp add: P_def packed_def n_def [symmetric] off0_def [symmetric]
            off1_def [symmetric] check_arrays_pack_arrays fs_def)
    qed
    moreover have "0 < n" using False by (simp add: word_neq_0_conv)
    ultimately show ?thesis by (simp add: s4n s5_def)
  qed
  have "kastore_read c s2 = (None, s4\<lparr>items := map (relocate f) P\<rparr>)"
    unfolding kastore_read_def by (simp only: hdr buf rd prod.case option.case)
  moreover have "kastore_open c (Some f) ''r'' fl = kastore_read c s2"
    by (simp add: kastore_open_def Let_def s2_def)
  moreover have "s4\<lparr>items := map (relocate f) P\<rparr> =
      \<lparr>mode = KAS_READ c, flags = fl, file_version = ver, num_items = n,
       items = map (relocate f) P, file_p = Some f, file_size = fs, read_buffer = Some f\<rparr>"
    by (simp add: s4_def s3_def s2_def kastore_zero_def)
  ultimately show ?thesis
    by (simp add: f_def n_def P_def ver_def fs_of)
qed

subsection \<open>Close, and lookups in the store that was read\<close>

lemma close_writes_image:
  assumes magic: "8 \<le> length (KAS_MAGIC c)" and md: "mode self = KAS_WRITE c"
    and fil: "file_p self = Some []"
    and len: "unat (num_items self) \<le> length (items self)"
    and ok: "\<forall>it\<in>set (active_items self). key_len it \<noteq> 0"
  shows "fst (kastore_close c self) = None \<and>
         fst (snd (kastore_close c self)) = kastore_zero \<and>
         fst (snd (snd (kastore_close c self)))
           = Some (file_image c (qsort_items (active_items self)))"
proof -
  obtain r s' where w: "kastore_write_file c self = (r, s')"
    by (cases "kastore_write_file c self")
  with write_file_image [OF magic fil len ok]
  have r: "r = None" and f: "file_p s' = Some (file_image c (qsort_items (active_items self)))"
    by simp_all
  show ?thesis
    using md fil w r f by (simp add: kastore_close_def Let_def split_beta)
qed

lemma relocated_items:
  assumes magic: "8 \<le> length (KAS_MAGIC c)"
    and S: "\<forall>it\<in>set S. key_fits it \<and> array_fits it"
    and sz: "packed_size S < 2 ^ 64" and d: "d \<in> set (packed S)"
  shows "key_fits (relocate (file_image c S) d)"
    and "key_bytes (relocate (file_image c S) d) = key_bytes d"
    and "array_bytes (relocate (file_image c S) d) = array_bytes d"
    and "entry (relocate (file_image c S) d) = entry d"
proof -
  let ?f = "file_image c S"
  from file_image_layout(8) [OF magic S sz] d
  have k: "take (unat (key_len d)) (drop (unat (key_start d)) ?f) = key_bytes d"
    and kb: "unat (key_start d) + unat (key_len d) \<le> packed_size S"
    and a: "take (unat (array_len d * type_size (type d))) (drop (unat (array_start d)) ?f)
              = array_bytes d"
    by blast+
  have lf: "length ?f = packed_size S" by (rule file_image_layout(4) [OF magic S sz])
  show "key_fits (relocate ?f d)" using kb lf by (simp add: key_fits_def)
  show kk: "key_bytes (relocate ?f d) = key_bytes d" using k by (simp add: key_bytes_def)
  show aa: "array_bytes (relocate ?f d) = array_bytes d" using a by (simp add: array_bytes_def)
  show "entry (relocate ?f d) = entry d" using kk aa by (simp add: entry_def)
qed

lemma search_item:
  assumes "length k < 2 ^ 64"
  shows "key_fits (kaitem_zero\<lparr>key := take (unat (of_nat (length k) :: size_t)) k,
                               key_len := of_nat (length k)\<rparr>)"
    and "key_bytes (kaitem_zero\<lparr>key := take (unat (of_nat (length k) :: size_t)) k,
                                key_len := of_nat (length k)\<rparr>) = k"
proof -
  have "unat (of_nat (length k) :: size_t) = length k"
    using assms by (simp add: unat_of_nat)
  then show "key_fits (kaitem_zero\<lparr>key := take (unat (of_nat (length k) :: size_t)) k,
                               key_len := of_nat (length k)\<rparr>)"
    and "key_bytes (kaitem_zero\<lparr>key := take (unat (of_nat (length k) :: size_t)) k,
                                key_len := of_nat (length k)\<rparr>) = k"
    by (simp_all add: key_fits_def key_bytes_def)
qed

lemma get_found:
  assumes srt: "sorted (map key_bytes (active_items s))"
    and dst: "distinct (map key_bytes (active_items s))"
    and fit: "\<forall>x\<in>set (active_items s). key_fits x"
    and k: "length k < 2 ^ 64" and it: "it \<in> set (active_items s)" "key_bytes it = k"
  shows "get_view (kastore_get s k (of_nat (length k))) = Inr (array_bytes it, array_len it, type it)"
proof -
  let ?search = "kaitem_zero\<lparr>key := take (unat (of_nat (length k) :: size_t)) k,
                               key_len := of_nat (length k)\<rparr>"
  have "bsearch ?search (active_items s) = Some it"
    using srt dst fit search_item [OF k] it by (intro bsearch_found) simp_all
  then show ?thesis
    by (simp add: kastore_get_def Let_def get_view_def array_bytes_def)
qed

lemma get_not_found:
  assumes srt: "sorted (map key_bytes (active_items s))"
    and fit: "\<forall>x\<in>set (active_items s). key_fits x"
    and k: "length k < 2 ^ 64" and no: "k \<notin> key_bytes ` set (active_items s)"
  shows "kastore_get s k (of_nat (length k)) = Inl KAS_ERR_KEY_NOT_FOUND"
proof -
  let ?search = "kaitem_zero\<lparr>key := take (unat (of_nat (length k) :: size_t)) k,
                               key_len := of_nat (length k)\<rparr>"
  have "bsearch ?search (active_items s) = None"
    using srt fit search_item [OF k] no by (intro bsearch_not_found) simp_all
  then show ?thesis by (simp add: kastore_get_def Let_def)
qed

subsection \<open>Writing a store and reading it back\<close>

lemma roundtrip_store:
  fixes fl :: int
  assumes ok: "consts_ok c" and md: "mode self = KAS_WRITE c" and fil: "file_p self = Some []"
    and len: "unat (num_items self) \<le> length (items self)"
    and its: "\<forall>it\<in>set (active_items self). item_ok it"
    and dst: "distinct (map key_bytes (active_items self))"
    and n32: "unat (num_items self) < 2 ^ 32"
    and sz: "packed_size (qsort_items (active_items self)) < 2 ^ 64"
  defines "f \<equiv> file_image c (qsort_items (active_items self))"
  defines "s' \<equiv> snd (kastore_open c (Some f) ''r'' fl)"
  shows "fst (kastore_close c self) = None"
    and "fst (snd (kastore_close c self)) = kastore_zero"
    and "fst (snd (snd (kastore_close c self))) = Some f"
    and "length f = packed_size (qsort_items (active_items self))"
    and "fst (kastore_open c (Some f) ''r'' fl) = None"
    and "mode s' = KAS_READ c" and "num_items s' = num_items self"
    and "unat (file_size s') = length f"
    and "active_items s' = map (relocate f) (packed (qsort_items (active_items self)))"
    and "map entry (active_items s') = map entry (qsort_items (active_items self))"
    and "map (\<lambda>it. (entry it, array_len it)) (active_items s')
           = map (\<lambda>it. (entry it, array_len it)) (qsort_items (active_items self))"
    and "mset (map entry (active_items s')) = mset (map entry (active_items self))"
    and "sorted (map key_bytes (active_items s'))"
    and "distinct (map key_bytes (active_items s'))"
    and "\<forall>x\<in>set (active_items s'). key_fits x"
proof -
  define S where "S = qsort_items (active_items self)"
  define P where "P = packed S"
  have magic: "8 \<le> length (KAS_MAGIC c)" using ok by (simp add: consts_ok_def)
  have nz: "\<forall>it\<in>set (active_items self). key_len it \<noteq> 0"
    using its by (simp add: item_ok_def)
  have Sok: "\<forall>it\<in>set S. item_ok it" using its by (simp add: S_def)
  have Sfit: "\<forall>it\<in>set S. key_fits it \<and> array_fits it" using Sok item_ok_fits by blast
  have lS: "length S = unat (num_items self)"
    using len by (simp add: S_def length_active_items)
  have lS32: "length S < 2 ^ 32" using lS n32 by simp
  have szS: "packed_size S < 2 ^ 64" using sz by (simp add: S_def)
  have fS: "f = file_image c S" by (simp add: f_def S_def)
  from close_writes_image [OF magic md fil len nz]
  show "fst (kastore_close c self) = None"
    and "fst (snd (kastore_close c self)) = kastore_zero"
    and "fst (snd (snd (kastore_close c self))) = Some f"
    by (simp_all add: f_def)
  show lf: "length f = packed_size (qsort_items (active_items self))"
    unfolding f_def by (rule file_image_layout(4) [OF magic _ sz]) (use Sfit S_def in simp)
  note op = open_file_image [OF ok Sok lS32 szS, of fl, folded fS]
  show "fst (kastore_open c (Some f) ''r'' fl) = None" by (simp add: op)
  show "mode s' = KAS_READ c" by (simp add: s'_def op)
  have nn: "(of_nat (length S) :: size_t) = num_items self" using lS by simp
  show "num_items s' = num_items self" by (simp add: s'_def op nn)
  have "packed_size S < 2 ^ 64" by (rule szS)
  then have "unat (of_nat (packed_size S) :: size_t) = packed_size S"
    by (simp add: unat_of_nat)
  then show "unat (file_size s') = length f" using lf by (simp add: s'_def op S_def)
  show act: "active_items s' = map (relocate f) (packed (qsort_items (active_items self)))"
  proof -
    have "items s' = map (relocate f) (packed S)" "num_items s' = num_items self"
      by (simp_all add: s'_def op nn)
    then have "active_items s' = map (relocate f) (packed S)"
      using lS by (simp add: active_items_def [of s'])
    then show ?thesis by (simp add: S_def)
  qed
  have ent: "map entry (map (relocate f) P) = map entry P"
    unfolding fS P_def using relocated_items(4) [OF magic Sfit szS] by simp
  have kb: "map key_bytes (map (relocate f) P) = map key_bytes P"
    unfolding fS P_def using relocated_items(2) [OF magic Sfit szS] by simp
  have entP: "map entry P = map entry S" unfolding P_def by (simp add: packed_map)
  have kbP: "map key_bytes P = map key_bytes S" unfolding P_def by (simp add: packed_map)
  show me: "map entry (active_items s') = map entry (qsort_items (active_items self))"
    by (simp only: act ent [unfolded P_def S_def] entP [unfolded P_def S_def])
  have ent4: "map (\<lambda>it. (entry it, array_len it)) (map (relocate f) P)
               = map (\<lambda>it. (entry it, array_len it)) P"
    unfolding fS P_def using relocated_items(4) [OF magic Sfit szS] by simp
  have entP4: "map (\<lambda>it. (entry it, array_len it)) P = map (\<lambda>it. (entry it, array_len it)) S"
    unfolding P_def by (simp add: packed_map)
  show "map (\<lambda>it. (entry it, array_len it)) (active_items s')
           = map (\<lambda>it. (entry it, array_len it)) (qsort_items (active_items self))"
    by (simp only: act ent4 [unfolded P_def S_def] entP4 [unfolded P_def S_def])
  have "mset (map entry S) = mset (map entry (active_items self))"
    unfolding S_def by (simp only: mset_map mset_qsort_items)
  then show "mset (map entry (active_items s')) = mset (map entry (active_items self))"
    using me by (simp add: S_def)
  have kbs: "map key_bytes (active_items s') = map key_bytes S"
    by (simp only: act kb [unfolded P_def] kbP [unfolded P_def] S_def [symmetric])
  have "sorted (map key_bytes S)"
    unfolding S_def using its item_ok_fits by (intro sorted_qsort_items) blast
  then show "sorted (map key_bytes (active_items s'))" by (simp add: kbs)
  have "mset (map key_bytes S) = mset (map key_bytes (active_items self))"
    unfolding S_def by (simp only: mset_map mset_qsort_items)
  then have "distinct (map key_bytes S)" using dst by (metis mset_eq_imp_distinct_iff)
  then show "distinct (map key_bytes (active_items s'))" by (simp add: kbs)
  show "\<forall>x\<in>set (active_items s'). key_fits x"
    unfolding act S_def [symmetric] fS
    using relocated_items(1) [OF magic Sfit szS] by auto
qed

subsection \<open>The size of the file\<close>

lemma arrays_end_le:
  "arrays_end offset its
     \<le> offset + sum_list (map (\<lambda>it. 8 + unat (array_len it) * unat (type_size (type it))) its)"
proof (induction its arbitrary: offset)
  case Nil
  show ?case by simp
next
  case (Cons it its)
  let ?p = "unat (array_len it) * unat (type_size (type it))"
  have "arrays_end (align_up_nat offset + ?p) its
          \<le> align_up_nat offset + ?p
             + sum_list (map (\<lambda>it. 8 + unat (array_len it) * unat (type_size (type it))) its)"
    by (rule Cons.IH)
  with align_up_nat_le [of offset] show ?case by simp
qed

lemma room_split:
  "sum_list (map (\<lambda>it. 64 + unat (key_len it) + 8
                        + unat (array_len it) * unat (type_size (type it))) its)
     = 64 * length its + sum_list (map (\<lambda>it. unat (key_len it)) its)
       + sum_list (map (\<lambda>it. 8 + unat (array_len it) * unat (type_size (type it))) its)"
  by (induction its) simp_all

lemma packed_size_le:
  "packed_size its
     \<le> 64 + sum_list (map (\<lambda>it. 64 + unat (key_len it) + 8
                                  + unat (array_len it) * unat (type_size (type it))) its)"
  unfolding packed_size_def room_split
  using arrays_end_le [of "64 + 64 * length its + sum_list (map (\<lambda>it. unat (key_len it)) its)" its]
  by simp

lemma sum_list_qsort_items:
  fixes g :: "kaitem \<Rightarrow> nat"
  shows "sum_list (map g (qsort_items its)) = sum_list (map g its)"
proof -
  have "mset (map g (qsort_items its)) = mset (map g its)"
    by (simp only: mset_map mset_qsort_items)
  then show ?thesis by (metis sum_mset_sum_list)
qed

subsection \<open>Calls of put\<close>

lemma item_of_call_fields [simp]:
  "type (item_of_call (k, arr, alen, ty)) = ty"
  "key (item_of_call (k, arr, alen, ty)) = k"
  "key_len (item_of_call (k, arr, alen, ty)) = of_nat (length k)"
  "array (item_of_call (k, arr, alen, ty)) = arr"
  "array_len (item_of_call (k, arr, alen, ty)) = alen"
  by (simp_all add: item_of_call_def)

lemma call_ok_item:
  assumes "call_ok p"
  shows "item_ok (item_of_call p)" and "key_bytes (item_of_call p) = fst p"
    and "unat (key_len (item_of_call p)) = length (fst p)"
    and "unat (array_len (item_of_call p)) * unat (type_size (type (item_of_call p)))
           = length (fst (snd p))"
proof -
  obtain k arr alen ty where p: "p = (k, arr, alen, ty)" by (cases p)
  with assms have k: "k \<noteq> []" "length k < 2 ^ 64" and ty: "0 \<le> ty" "ty < 8"
    and arr: "length arr = unat alen * unat (type_size ty)"
    by (simp_all add: call_ok_def)
  have u: "unat (of_nat (length k) :: size_t) = length k"
    using k by (simp add: unat_of_nat)
  have nz: "(of_nat (length k) :: size_t) \<noteq> 0"
    using u k by (metis length_0_conv unat_0)
  show "item_ok (item_of_call p)"
    using ty arr u nz by (simp add: p item_ok_def)
  show "key_bytes (item_of_call p) = fst p" using u by (simp add: p key_bytes_def)
  show "unat (key_len (item_of_call p)) = length (fst p)" using u by (simp add: p)
  show "unat (array_len (item_of_call p)) * unat (type_size (type (item_of_call p)))
           = length (fst (snd p))"
    using arr by (simp add: p)
qed

lemma call_ok_entry:
  assumes "call_ok (k, arr, alen, ty)" "length arr < 2 ^ 64"
  shows "entry (item_of_call (k, arr, alen, ty)) = (k, ty, arr)"
    and "array_bytes (item_of_call (k, arr, alen, ty)) = arr"
proof -
  have arr: "length arr = unat alen * unat (type_size ty)"
    using assms(1) by (simp add: call_ok_def)
  then have "unat (alen * type_size ty) = length arr"
    using assms(2) unat_mult_no_wrap [of alen "type_size ty"] by simp
  then show ab: "array_bytes (item_of_call (k, arr, alen, ty)) = arr"
    by (simp add: array_bytes_def)
  show "entry (item_of_call (k, arr, alen, ty)) = (k, ty, arr)"
    using ab call_ok_item(2) [OF assms(1)] by (simp add: entry_def)
qed

lemma calls_room_items:
  assumes "\<forall>p\<in>set ps. call_ok p"
  shows "64 + sum_list (map (\<lambda>it. 64 + unat (key_len it) + 8
                        + unat (array_len it) * unat (type_size (type it)))
                       (map item_of_call ps)) = calls_room ps"
  using assms
proof (induction ps)
  case Nil
  show ?case by (simp add: calls_room_def)
next
  case (Cons p ps)
  obtain k arr alen ty where p: "p = (k, arr, alen, ty)" by (cases p)
  have "call_ok p" using Cons.prems by simp
  from call_ok_item(3,4) [OF this] Cons show ?case
    by (simp add: calls_room_def p)
qed

lemma open_write:
  assumes "KAS_READ c \<noteq> KAS_WRITE c"
  shows "kastore_open c disk ''w'' fl
           = (None, kastore_zero\<lparr>mode := KAS_WRITE c, flags := fl, file_p := Some []\<rparr>)"
  using assms by (simp add: kastore_open_def Let_def)

lemma compare_new_item:
  assumes "key_fits new" "\<forall>x\<in>set olds. key_fits x"
  shows "list_ex (\<lambda>old. compare_items new old = 0) olds \<longleftrightarrow> key_bytes new \<in> key_bytes ` set olds"
  using assms by (auto simp: list_ex_iff compare_items_eq)

lemma put_new_item:
  "kaitem_zero\<lparr>type := ty, key := take (unat (of_nat (length k) :: size_t)) k,
               key_len := of_nat (length k), array := arr, array_len := alen\<rparr>
     = (item_of_call (k, arr, alen, ty))\<lparr>key := take (unat (of_nat (length k) :: size_t)) k\<rparr>"
  by (simp add: item_of_call_def)

lemma put_appends:
  assumes call: "call_ok (k, arr, alen, ty)"
    and len: "unat (num_items s) \<le> length (items s)"
    and fit: "\<forall>x\<in>set (active_items s). key_fits x"
    and new: "k \<notin> key_bytes ` set (active_items s)"
  shows "kastore_put s k (of_nat (length k)) arr alen ty fl
           = (None, s\<lparr>items := active_items s @ [item_of_call (k, arr, alen, ty)],
                      num_items := num_items s + 1\<rparr>)"
proof -
  let ?new = "item_of_call (k, arr, alen, ty)"
  from call have k: "k \<noteq> []" "length k < 2 ^ 64" and ty: "\<not> (ty < 0 \<or> 8 \<le> ty)"
    by (auto simp: call_ok_def)
  have u: "unat (of_nat (length k) :: size_t) = length k" using k by (simp add: unat_of_nat)
  have nz: "(of_nat (length k) :: size_t) \<noteq> 0" using u k by (metis length_0_conv unat_0)
  have ni: "kaitem_zero\<lparr>type := ty, key := take (unat (of_nat (length k) :: size_t)) k,
               key_len := of_nat (length k), array := arr, array_len := alen\<rparr> = ?new"
    using u by (simp add: item_of_call_def)
  have la: "length (active_items s) = unat (num_items s)"
    using len by (rule length_active_items)
  have tk: "take (unat (num_items s)) (active_items s @ [?new]) = active_items s"
    using la by simp
  have kf: "key_fits ?new" using call_ok_item(1) [OF call] item_ok_fits by blast
  have kb: "key_bytes ?new = k" using call_ok_item(2) [OF call] by simp
  have nodup: "\<not> list_ex (\<lambda>old. compare_items ?new old = 0) (active_items s)"
    using compare_new_item [OF kf fit] kb new by simp
  show ?thesis
    unfolding kastore_put_def Let_def ni
    using ty nz nodup by (simp add: la)
qed

lemma put_duplicate:
  assumes call: "call_ok (k, arr, alen, ty)"
    and len: "unat (num_items s) \<le> length (items s)"
    and fit: "\<forall>x\<in>set (active_items s). key_fits x"
    and old: "k \<in> key_bytes ` set (active_items s)"
  shows "kastore_put s k (of_nat (length k)) arr alen ty fl
           = (Some KAS_ERR_DUPLICATE_KEY,
              s\<lparr>items := active_items s @ [item_of_call (k, arr, alen, ty)],
                num_items := num_items s\<rparr>)"
proof -
  let ?new = "item_of_call (k, arr, alen, ty)"
  from call have k: "k \<noteq> []" "length k < 2 ^ 64" and ty: "\<not> (ty < 0 \<or> 8 \<le> ty)"
    by (auto simp: call_ok_def)
  have u: "unat (of_nat (length k) :: size_t) = length k" using k by (simp add: unat_of_nat)
  have nz: "(of_nat (length k) :: size_t) \<noteq> 0" using u k by (metis length_0_conv unat_0)
  have ni: "kaitem_zero\<lparr>type := ty, key := take (unat (of_nat (length k) :: size_t)) k,
               key_len := of_nat (length k), array := arr, array_len := alen\<rparr> = ?new"
    using u by (simp add: item_of_call_def)
  have la: "length (active_items s) = unat (num_items s)"
    using len by (rule length_active_items)
  have tk: "take (unat (num_items s)) (active_items s @ [?new]) = active_items s"
    using la by simp
  have kf: "key_fits ?new" using call_ok_item(1) [OF call] item_ok_fits by blast
  have kb: "key_bytes ?new = k" using call_ok_item(2) [OF call] by simp
  have dup: "list_ex (\<lambda>old. compare_items ?new old = 0) (active_items s)"
    using compare_new_item [OF kf fit] kb old by simp
  show ?thesis
    unfolding kastore_put_def Let_def ni
    using ty nz dup by (simp add: la)
qed

lemma put_all_appends:
  assumes "\<forall>p\<in>set ps. call_ok p" and "distinct (map fst ps)"
    and "unat (num_items s) \<le> length (items s)"
    and "\<forall>x\<in>set (active_items s). item_ok x"
    and "fst ` set ps \<inter> key_bytes ` set (active_items s) = {}"
    and "unat (num_items s) + length ps < 2 ^ 64"
  shows "fst (put_all s ps) = replicate (length ps) None \<and>
         active_items (snd (put_all s ps)) = active_items s @ map item_of_call ps \<and>
         unat (num_items (snd (put_all s ps))) \<le> length (items (snd (put_all s ps))) \<and>
         snd (put_all s ps)
           = s\<lparr>items := items (snd (put_all s ps)),
               num_items := num_items s + of_nat (length ps)\<rparr>"
  using assms
proof (induction ps arbitrary: s)
  case Nil
  then show ?case by simp
next
  case (Cons p ps)
  obtain k arr alen ty where p: "p = (k, arr, alen, ty)" by (cases p)
  let ?new = "item_of_call (k, arr, alen, ty)"
  let ?s1 = "s\<lparr>items := active_items s @ [?new], num_items := num_items s + 1\<rparr>"
  have call: "call_ok (k, arr, alen, ty)" using Cons.prems(1) p by simp
  have fit: "\<forall>x\<in>set (active_items s). key_fits x"
    using Cons.prems(4) item_ok_fits by blast
  have new: "k \<notin> key_bytes ` set (active_items s)"
    using Cons.prems(5) p by auto
  have put: "kastore_put s k (of_nat (length k)) arr alen ty 0 = (None, ?s1)"
    using call Cons.prems(3) fit new by (rule put_appends)
  have la: "length (active_items s) = unat (num_items s)"
    using Cons.prems(3) by (rule length_active_items)
  have n1: "unat (num_items s + 1) = unat (num_items s) + 1"
    using Cons.prems(6) unat_add_no_wrap [of "num_items s" 1] by simp
  have a1: "active_items ?s1 = active_items s @ [?new]"
    using la n1 by (simp add: active_items_def [of ?s1])
  have kb: "key_bytes ?new = k" using call_ok_item(2) [OF call] by simp
  have IH: "fst (put_all ?s1 ps) = replicate (length ps) None \<and>
         active_items (snd (put_all ?s1 ps)) = active_items ?s1 @ map item_of_call ps \<and>
         unat (num_items (snd (put_all ?s1 ps))) \<le> length (items (snd (put_all ?s1 ps))) \<and>
         snd (put_all ?s1 ps)
           = ?s1\<lparr>items := items (snd (put_all ?s1 ps)),
               num_items := num_items ?s1 + of_nat (length ps)\<rparr>"
  proof (rule Cons.IH)
    show "\<forall>p\<in>set ps. call_ok p" using Cons.prems(1) by simp
    show "distinct (map fst ps)" using Cons.prems(2) by simp
    show "unat (num_items ?s1) \<le> length (items ?s1)" using la n1 by simp
    show "\<forall>x\<in>set (active_items ?s1). item_ok x"
      using Cons.prems(4) call_ok_item(1) [OF call] by (simp add: a1)
    show "fst ` set ps \<inter> key_bytes ` set (active_items ?s1) = {}"
      using Cons.prems(2,5) kb p by (auto simp: a1)
    show "unat (num_items ?s1) + length ps < 2 ^ 64"
      using Cons.prems(6) n1 by simp
  qed
  obtain rs s2 where pa: "put_all ?s1 ps = (rs, s2)" by (cases "put_all ?s1 ps")
  have all: "put_all s (p # ps) = (None # rs, s2)"
    by (simp add: p put pa)
  from IH pa have rs: "rs = replicate (length ps) None"
    and a2: "active_items s2 = active_items ?s1 @ map item_of_call ps"
    and l2: "unat (num_items s2) \<le> length (items s2)"
    and s2: "s2 = ?s1\<lparr>items := items s2, num_items := num_items ?s1 + of_nat (length ps)\<rparr>"
    by simp_all
  have s2': "s2 = s\<lparr>items := items s2, num_items := num_items s + of_nat (length (p # ps))\<rparr>"
    by (subst s2) (simp add: add.assoc)
  have F: "fst (put_all s (p # ps)) = None # rs" and Sn: "snd (put_all s (p # ps)) = s2"
    using all by simp_all
  show ?case
    unfolding F Sn
  proof (intro conjI)
    show "None # rs = replicate (length (p # ps)) None" using rs by simp
    show "active_items s2 = active_items s @ map item_of_call (p # ps)"
      using a2 a1 by (simp add: p)
    show "unat (num_items s2) \<le> length (items s2)" by (rule l2)
    show "s2 = s\<lparr>items := items s2, num_items := num_items s + of_nat (length (p # ps))\<rparr>"
      by (rule s2')
  qed
qed

lemma call_room_bound:
  "p \<in> set ps \<Longrightarrow> length (fst (snd p)) < calls_room ps"
proof (induction ps)
  case Nil
  then show ?case by simp
next
  case (Cons q ps)
  show ?case
  proof (cases "p = q")
    case True
    then show ?thesis by (cases q) (simp add: calls_room_def)
  next
    case False
    with Cons have "length (fst (snd p)) < calls_room ps" by simp
    then show ?thesis by (cases q) (simp add: calls_room_def)
  qed
qed

text \<open>What is in the store after a list of accepted calls was written and read back.\<close>

lemma roundtrip_calls:
  fixes fl fl' :: int
  assumes ok: "consts_ok c" and calls: "\<forall>p\<in>set ps. call_ok p"
    and dst: "distinct (map fst ps)" and n32: "length ps < 2 ^ 32"
    and room: "calls_room ps < 2 ^ 64"
    and s1: "mode s1 = KAS_WRITE c" "file_p s1 = Some []"
      "unat (num_items s1) \<le> length (items s1)"
      "active_items s1 = map item_of_call ps"
  defines "f \<equiv> fst (snd (snd (kastore_close c s1)))"
  defines "s2 \<equiv> snd (kastore_open c f ''r'' fl')"
  shows "fst (kastore_close c s1) = None"
    and "f = Some (file_image c (qsort_items (map item_of_call ps)))"
    and "fst (kastore_open c f ''r'' fl') = None"
    and "mset (map entry (active_items s2)) = mset (map (\<lambda>(k, arr, alen, ty). (k, ty, arr)) ps)"
    and "sorted (map key_bytes (active_items s2))"
    and "\<forall>(k, arr, alen, ty)\<in>set ps.
           get_view (kastore_get s2 k (of_nat (length k))) = Inr (arr, alen, ty)"
    and "\<forall>k. length k < 2 ^ 64 \<longrightarrow> k \<notin> fst ` set ps \<longrightarrow>
           kastore_get s2 k (of_nat (length k)) = Inl KAS_ERR_KEY_NOT_FOUND"
    and "distinct (map key_bytes (active_items s2))"
    and "\<forall>x\<in>set (active_items s2). key_fits x"
proof -
  let ?its = "map item_of_call ps"
  let ?g = "file_image c (qsort_items (active_items s1))"
  let ?t = "snd (kastore_open c (Some ?g) ''r'' fl')"
  have its: "\<forall>it\<in>set (active_items s1). item_ok it"
    using calls call_ok_item(1) by (auto simp: s1(4))
  have kbs: "map key_bytes ?its = map fst ps"
    using calls call_ok_item(2) by (induction ps) auto
  have dk: "distinct (map key_bytes (active_items s1))"
    by (simp only: s1(4) kbs dst)
  have la: "length (active_items s1) = unat (num_items s1)"
    using s1(3) by (rule length_active_items)
  then have n: "unat (num_items s1) < 2 ^ 32" using n32 by (simp add: s1(4))
  have "packed_size (qsort_items ?its)
          \<le> 64 + sum_list (map (\<lambda>it. 64 + unat (key_len it) + 8
                                  + unat (array_len it) * unat (type_size (type it)))
                               (qsort_items ?its))"
    by (rule packed_size_le)
  also have "\<dots> = calls_room ps"
    using calls_room_items [OF calls] by (simp only: sum_list_qsort_items)
  finally have sz: "packed_size (qsort_items (active_items s1)) < 2 ^ 64"
    using room by (simp add: s1(4))
  note R = roundtrip_store [OF ok s1(1) s1(2) s1(3) its dk n sz]
  have f: "f = Some ?g" unfolding f_def by (rule R(3))
  have s2: "s2 = ?t" unfolding s2_def f ..
  show "fst (kastore_close c s1) = None" by (rule R(1))
  show "f = Some (file_image c (qsort_items ?its))" using f by (simp add: s1(4))
  show "fst (kastore_open c f ''r'' fl') = None" unfolding f by (rule R(5))
  have ent1: "entry (item_of_call p) = (case p of (k, arr, alen, ty) \<Rightarrow> (k, ty, arr))
              \<and> array_len (item_of_call p) = fst (snd (snd p))"
    if "p \<in> set ps" for p
  proof -
    obtain k arr alen ty where p: "p = (k, arr, alen, ty)" by (cases p)
    have "length arr < 2 ^ 64" using call_room_bound [OF that] room by (simp add: p)
    moreover have "call_ok (k, arr, alen, ty)" using calls that p by simp
    ultimately show ?thesis using call_ok_entry(1) by (simp add: p)
  qed
  have ent: "map entry ?its = map (\<lambda>(k, arr, alen, ty). (k, ty, arr)) ps"
    using ent1 by simp
  have M: "mset (map entry (active_items ?t)) = mset (map entry (active_items s1))"
    by (rule R(12))
  show "mset (map entry (active_items s2)) = mset (map (\<lambda>(k, arr, alen, ty). (k, ty, arr)) ps)"
    by (simp only: s2 [unfolded s1(4)] M [unfolded s1(4)] ent)
  show "sorted (map key_bytes (active_items s2))" unfolding s2 by (rule R(13))
  have keys: "key_bytes ` set (active_items ?t) = fst ` set ps"
  proof -
    have "map key_bytes (active_items ?t) = map fst (map entry (active_items ?t))"
      by (simp add: entry_def)
    also have "\<dots> = map fst (map entry (qsort_items (active_items s1)))"
      by (simp only: R(10))
    also have "\<dots> = map key_bytes (qsort_items (active_items s1))"
      by (simp add: entry_def)
    finally have "set (map key_bytes (active_items ?t))
        = set (map key_bytes (qsort_items (active_items s1)))" by simp
    then have "key_bytes ` set (active_items ?t) = key_bytes ` set (active_items s1)"
      by simp
    also have "\<dots> = set (map key_bytes ?its)" by (simp only: s1(4) set_map)
    also have "\<dots> = fst ` set ps" by (simp only: kbs set_map)
    finally show ?thesis .
  qed
  show "\<forall>(k, arr, alen, ty)\<in>set ps.
           get_view (kastore_get s2 k (of_nat (length k))) = Inr (arr, alen, ty)"
  proof (clarify)
    fix k arr alen ty assume p: "(k, arr, alen, ty) \<in> set ps"
    let ?x = "item_of_call (k, arr, alen, ty)"
    have "?x \<in> set (qsort_items (active_items s1))" using p by (simp add: s1(4))
    then have "(entry ?x, array_len ?x)
        \<in> set (map (\<lambda>it. (entry it, array_len it)) (qsort_items (active_items s1)))"
      by (simp only: set_map) (rule imageI)
    then have "(entry ?x, array_len ?x)
        \<in> set (map (\<lambda>it. (entry it, array_len it)) (active_items ?t))"
      by (simp only: R(11))
    then obtain it where it: "it \<in> set (active_items ?t)" "entry it = entry ?x"
      "array_len it = array_len ?x" by auto
    have ex: "entry ?x = (k, ty, arr)" using ent1 [OF p] by simp
    have kl: "length k < 2 ^ 64" using calls p by (auto simp: call_ok_def)
    have "get_view (kastore_get ?t k (of_nat (length k)))
            = Inr (array_bytes it, array_len it, type it)"
      using R(13) R(14) R(15) kl it(1)
    proof (rule get_found)
      show "key_bytes it = k" using it(2) ex by (simp add: entry_def)
    qed
    then show "get_view (kastore_get s2 k (of_nat (length k))) = Inr (arr, alen, ty)"
      unfolding s2 using it(2,3) ex by (simp add: entry_def)
  qed
  show "\<forall>k. length k < 2 ^ 64 \<longrightarrow> k \<notin> fst ` set ps \<longrightarrow>
           kastore_get s2 k (of_nat (length k)) = Inl KAS_ERR_KEY_NOT_FOUND"
  proof (intro allI impI)
    fix k :: "byte list" assume kl: "length k < 2 ^ 64" and no: "k \<notin> fst ` set ps"
    from no have "k \<notin> key_bytes ` set (active_items ?t)" by (simp only: keys not_False_eq_True)
    with R(13) R(15) kl show "kastore_get s2 k (of_nat (length k)) = Inl KAS_ERR_KEY_NOT_FOUND"
      unfolding s2 by (rule get_not_found)
  qed
  show "distinct (map key_bytes (active_items s2))" unfolding s2 by (rule R(14))
  show "\<forall>x\<in>set (active_items s2). key_fits x" unfolding s2 by (rule R(15))
qed

subsection \<open>A store that was opened for writing\<close>

lemma opened_for_writing:
  fixes disk :: "byte list option" and fl :: int
  assumes "consts_ok c"
  defines "s0 \<equiv> snd (kastore_open c disk ''w'' fl)"
  shows "fst (kastore_open c disk ''w'' fl) = None" and "mode s0 = KAS_WRITE c"
    and "file_p s0 = Some []" and "num_items s0 = 0" and "items s0 = []"
    and "active_items s0 = []"
  using assms open_write [of c disk fl]
  by (simp_all add: consts_ok_def kastore_zero_def active_items_def)

lemma puts_on_new_store:
  fixes disk :: "byte list option" and fl :: int
  assumes ok: "consts_ok c" and calls: "\<forall>p\<in>set ps. call_ok p"
    and dst: "distinct (map fst ps)" and n32: "length ps < 2 ^ 32"
  defines "s0 \<equiv> snd (kastore_open c disk ''w'' fl)"
  defines "s1 \<equiv> snd (put_all s0 ps)"
  shows "fst (put_all s0 ps) = replicate (length ps) None"
    and "mode s1 = KAS_WRITE c" and "file_p s1 = Some []"
    and "unat (num_items s1) \<le> length (items s1)"
    and "active_items s1 = map item_of_call ps"
proof -
  note o = opened_for_writing [OF ok, of disk fl, folded s0_def]
  have P: "fst (put_all s0 ps) = replicate (length ps) None \<and>
         active_items (snd (put_all s0 ps)) = active_items s0 @ map item_of_call ps \<and>
         unat (num_items (snd (put_all s0 ps))) \<le> length (items (snd (put_all s0 ps))) \<and>
         snd (put_all s0 ps)
           = s0\<lparr>items := items (snd (put_all s0 ps)),
               num_items := num_items s0 + of_nat (length ps)\<rparr>"
  proof (rule put_all_appends [OF calls dst])
    show "unat (num_items s0) \<le> length (items s0)" by (simp add: o)
    show "\<forall>x\<in>set (active_items s0). item_ok x" by (simp add: o)
    show "fst ` set ps \<inter> key_bytes ` set (active_items s0) = {}" by (simp add: o)
    show "unat (num_items s0) + length ps < 2 ^ 64" using n32 by (simp add: o)
  qed
  from P show "fst (put_all s0 ps) = replicate (length ps) None" by blast
  from P have e: "s1 = s0\<lparr>items := items s1, num_items := num_items s0 + of_nat (length ps)\<rparr>"
    unfolding s1_def by blast
  have "mode s1 = mode s0" "file_p s1 = file_p s0" by (subst e, simp)+
  then show "mode s1 = KAS_WRITE c" and "file_p s1 = Some []" by (simp_all add: o)
  from P show "unat (num_items s1) \<le> length (items s1)" unfolding s1_def by blast
  from P show "active_items s1 = map item_of_call ps" unfolding s1_def by (simp add: o)
qed


section \<open>Writing and reading back\<close>

lemma type_size_table: "map type_size [0, 1, 2, 3, 4, 5, 6, 7] = [1, 1, 4, 4, 8, 8, 4, 8]"
  by (simp add: type_size_def)

lemma type_size_width:
  assumes "0 \<le> ty" "ty < 8"
  shows "unat (type_size ty) = type_width ty"
proof -
  from assms have "ty = 0 \<or> ty = 1 \<or> ty = 2 \<or> ty = 3 \<or> ty = 4 \<or> ty = 5 \<or> ty = 6 \<or> ty = 7"
    by arith
  then show ?thesis by (elim disjE) (simp_all add: type_size_def type_width_def)
qed

lemma put_call_valid_ok: "put_call_valid p \<Longrightarrow> call_ok p"
  by (cases p) (simp add: put_call_valid_def call_ok_def type_size_width)

lemma view_bytes_get_view:
  assumes g: "get_view r = Inr (arr, alen, ty)"
    and ty: "0 \<le> ty" "ty < 8"
    and l: "length arr = unat alen * type_width ty" "length arr < 2 ^ 64"
  shows "view_bytes r = Inr (arr, alen, ty)"
proof -
  from g obtain p where r: "r = Inr (p, alen, ty)"
    and a: "take (unat (alen * type_size ty)) p = arr"
    by (auto simp add: get_view_def split: sum.splits prod.splits)
  have "unat alen * unat (type_size ty) < 2 ^ 64" using l by (simp add: type_size_width [OF ty])
  then have "unat (alen * type_size ty) = unat alen * unat (type_size ty)"
    by (simp add: unat_mult_lem [THEN iffD1])
  then have "unat (alen * type_size ty) = unat alen * type_width ty"
    by (simp add: type_size_width [OF ty])
  with a show ?thesis by (simp add: view_bytes_def r)
qed

text \<open>
  C1. A list of put calls with pairwise distinct, non-empty keys, valid type tags and
  arrays of \<open>array_len\<close> elements of the width that the specification's table gives for
  the tag (1, 1, 4, 4, 8, 8, 4, 8 bytes for the tags 0 to 7), of fewer than \<open>2\<^sup>3\<^sup>2\<close>
  items whose file fits in \<open>2\<^sup>6\<^sup>4\<close> bytes: \<^verbatim>\<open>type_size\<close> gives the widths of that table,
  the store is opened for writing, the calls all succeed, close succeeds and writes a
  file, and opening that file for reading (with any flags) succeeds with a store that
  holds exactly the (key, type, array bytes) that were put; get on a key that was put
  returns a view whose \<open>array_len\<close> elements, measured by the table of the
  specification as well as by \<^verbatim>\<open>type_size\<close>, are the bytes of the array that was put,
  with its element count and its type, and get on any other key returns
  \<open>KAS_ERR_KEY_NOT_FOUND\<close>.
\<close>

theorem put_close_open_roundtrip:
  fixes disk :: "byte list option" and fl fl' :: int
  assumes ok: "consts_ok c" and calls: "\<forall>p\<in>set ps. put_call_valid p"
    and dst: "distinct (map fst ps)" and n32: "length ps < 2 ^ 32"
    and room: "calls_room ps < 2 ^ 64"
  defines "s1 \<equiv> snd (put_all (snd (kastore_open c disk ''w'' fl)) ps)"
  defines "f \<equiv> fst (snd (snd (kastore_close c s1)))"
  defines "s2 \<equiv> snd (kastore_open c f ''r'' fl')"
  shows "map type_size [0, 1, 2, 3, 4, 5, 6, 7] = [1, 1, 4, 4, 8, 8, 4, 8] \<and>
         fst (kastore_open c disk ''w'' fl) = None \<and>
         fst (put_all (snd (kastore_open c disk ''w'' fl)) ps) = replicate (length ps) None \<and>
         fst (kastore_close c s1) = None \<and>
         fst (kastore_open c f ''r'' fl') = None \<and>
         mset (map entry (active_items s2)) = mset (map (\<lambda>(k, arr, alen, ty). (k, ty, arr)) ps) \<and>
         (\<forall>(k, arr, alen, ty)\<in>set ps.
            view_bytes (kastore_get s2 k (of_nat (length k))) = Inr (arr, alen, ty)) \<and>
         (\<forall>(k, arr, alen, ty)\<in>set ps.
            get_view (kastore_get s2 k (of_nat (length k))) = Inr (arr, alen, ty)) \<and>
         (\<forall>k. length k < 2 ^ 64 \<longrightarrow> k \<notin> fst ` set ps \<longrightarrow>
            kastore_get s2 k (of_nat (length k)) = Inl KAS_ERR_KEY_NOT_FOUND)"
proof -
  have calls': "\<forall>p\<in>set ps. call_ok p" using calls put_call_valid_ok by blast
  note p = puts_on_new_store [OF ok calls' dst n32, of disk fl, folded s1_def]
  note r = roundtrip_calls [OF ok calls' dst n32 room p(2) p(3) p(4) p(5), folded f_def]
  have v: "\<forall>(k, arr, alen, ty)\<in>set ps.
            view_bytes (kastore_get s2 k (of_nat (length k))) = Inr (arr, alen, ty)"
  proof (clarify)
    fix k arr alen ty assume m: "(k, arr, alen, ty) \<in> set ps"
    have "\<forall>(k, arr, alen, ty)\<in>set ps.
            get_view (kastore_get s2 k (of_nat (length k))) = Inr (arr, alen, ty)"
      unfolding s2_def by (rule r(6))
    with m have g: "get_view (kastore_get s2 k (of_nat (length k))) = Inr (arr, alen, ty)"
      by blast
    from m calls have "put_call_valid (k, arr, alen, ty)" by blast
    then have ty: "0 \<le> ty" "ty < 8" and l: "length arr = unat alen * type_width ty"
      by (simp_all add: put_call_valid_def)
    have "length arr < 2 ^ 64" using call_room_bound [OF m] room by simp
    from view_bytes_get_view [OF g ty l this]
    show "view_bytes (kastore_get s2 k (of_nat (length k))) = Inr (arr, alen, ty)" .
  qed
  show ?thesis
    using v unfolding s2_def
    by (intro conjI) (rule type_size_table opened_for_writing(1) [OF ok] p(1) r(1) r(3) r(4) r(6) r(7)
        | assumption)+
qed

theorem put_close_open_roundtrip_witness:
  "consts_ok example_consts \<and> list_all put_call_valid example_calls \<and>
   distinct (map fst example_calls) \<and> calls_room example_calls = 214 \<and>
   fst (snd (snd (kastore_close example_consts
     (snd (put_all (snd (kastore_open example_consts None ''w'' 0)) example_calls)))))
     = Some example_file \<and>
   view_bytes (kastore_get
     (snd (kastore_open example_consts (Some example_file) ''r'' 0)) [98] 1)
     = Inr ([0x44, 0x33, 0x22, 0x11], 1, 2) \<and>
   view_bytes (kastore_get
     (snd (kastore_open example_consts (Some example_file) ''r'' 0)) [97] 1)
     = Inr ([], 0, 4) \<and>
   kastore_get
     (snd (kastore_open example_consts (Some example_file) ''r'' 0)) [99] 1
     = Inl KAS_ERR_KEY_NOT_FOUND"
proof -
  have ok: "consts_ok example_consts"
    by (simp add: consts_ok_def example_consts_def)
  have calls: "\<forall>p\<in>set example_calls. put_call_valid p"
    by (simp add: example_calls_def put_call_valid_def type_width_def)
  have dst: "distinct (map fst example_calls)" by (simp add: example_calls_def)
  have n32: "length example_calls < 2 ^ 32" by (simp add: example_calls_def)
  have room: "calls_room example_calls = 214" by (simp add: example_calls_def calls_room_def)
  then have room': "calls_room example_calls < 2 ^ 64" by simp
  have fl: "fst (snd (snd (kastore_close example_consts
     (snd (put_all (snd (kastore_open example_consts None ''w'' 0)) example_calls)))))
     = Some example_file"
    by (simp add: eval_simps example_calls_def kastore_close_def kastore_write_file_def
      kastore_pack_items_def kastore_write_header_def kastore_write_descriptors_def
      kastore_write_data_def qsort_items_def fwrite1_def)
  note T = put_close_open_roundtrip [OF ok calls dst n32 room', of None 0 0, unfolded fl]
  let ?s2 = "snd (kastore_open example_consts (Some example_file) ''r'' 0)"
  from T have stored: "\<forall>(k, arr, alen, ty)\<in>set example_calls.
            view_bytes (kastore_get ?s2 k (of_nat (length k))) = Inr (arr, alen, ty)"
    and others: "\<forall>k. length k < 2 ^ 64 \<longrightarrow> k \<notin> fst ` set example_calls \<longrightarrow>
            kastore_get ?s2 k (of_nat (length k)) = Inl KAS_ERR_KEY_NOT_FOUND"
    by blast+
  have mem: "([98], [0x44, 0x33, 0x22, 0x11], 1, 2) \<in> set example_calls"
    "([97], [], 0, 4) \<in> set example_calls"
    by (simp_all add: example_calls_def)
  have a: "view_bytes (kastore_get ?s2 [98] 1) = Inr ([0x44, 0x33, 0x22, 0x11], 1, 2)"
    using bspec [OF stored mem(1)] by simp
  have a': "view_bytes (kastore_get ?s2 [97] 1) = Inr ([], 0, 4)"
    using bspec [OF stored mem(2)] by simp
  have nomem: "[99] \<notin> fst ` set example_calls" by (simp add: example_calls_def)
  have b: "kastore_get ?s2 [99] 1 = Inl KAS_ERR_KEY_NOT_FOUND"
    using others [rule_format, of "[99]"] nomem by simp
  from ok calls dst room fl a a' b show ?thesis by (simp add: list_all_iff)
qed

section \<open>The order of the items\<close>

lemma strictly_sorted_by_compare:
  assumes "sorted (map key_bytes xs)" "distinct (map key_bytes xs)" "\<forall>x\<in>set xs. key_fits x"
  shows "sorted_wrt (\<lambda>a b. compare_items a b < 0) xs"
proof -
  have "sorted_wrt (<) (map key_bytes xs)"
    using assms(1,2) by (simp add: strict_sorted_iff)
  then have "sorted_wrt (\<lambda>a b. key_bytes a < key_bytes b) xs"
    by (simp add: sorted_wrt_map)
  then show ?thesis
  proof (rule sorted_wrt_mono_rel [rotated])
    fix a b assume "a \<in> set xs" "b \<in> set xs" "key_bytes a < key_bytes b"
    with assms(3) show "compare_items a b < 0" by (simp add: compare_items_less)
  qed
qed

text \<open>
  C6, as the code has it. The reader compares offsets, never keys: \<open>unsorted_file\<close>
  stores the keys \<open>b\<close>, \<open>a\<close> in this order with the offsets of the packing walk, and is
  opened with success; the two items of the store are then in descending order.
\<close>

theorem unsorted_file_is_accepted:
  "fst (kastore_open example_consts (Some unsorted_file) ''r'' 0) = None \<and>
   map key_bytes (active_items (snd (kastore_open example_consts (Some unsorted_file) ''r'' 0)))
     = [[98], [97]] \<and>
   (case active_items (snd (kastore_open example_consts (Some unsorted_file) ''r'' 0)) of
      [a, b] \<Rightarrow> compare_items a b = 1 | _ \<Rightarrow> False)"
  by (simp add: eval_simps key_bytes_def)

text \<open>
  C6, amended. For a file that close has written from accepted put calls, the store
  that a read-mode open returns has its items in strictly ascending key order: the
  bytes of the keys ascend lexicographically, a proper prefix before its extensions,
  and \<open>compare_items\<close> is negative on every pair in list order.
\<close>

theorem written_file_reads_sorted:
  fixes disk :: "byte list option" and fl fl' :: int
  assumes ok: "consts_ok c" and calls: "\<forall>p\<in>set ps. call_ok p"
    and dst: "distinct (map fst ps)" and n32: "length ps < 2 ^ 32"
    and room: "calls_room ps < 2 ^ 64"
  defines "s1 \<equiv> snd (put_all (snd (kastore_open c disk ''w'' fl)) ps)"
  defines "f \<equiv> fst (snd (snd (kastore_close c s1)))"
  defines "s2 \<equiv> snd (kastore_open c f ''r'' fl')"
  shows "fst (kastore_open c f ''r'' fl') = None \<and>
         sorted (map key_bytes (active_items s2)) \<and>
         sorted_wrt (\<lambda>a b. compare_items a b < 0) (active_items s2)"
proof -
  note p = puts_on_new_store [OF ok calls dst n32, of disk fl, folded s1_def]
  note r = roundtrip_calls [OF ok calls dst n32 room p(2) p(3) p(4) p(5), folded f_def]
  have "sorted_wrt (\<lambda>a b. compare_items a b < 0) (active_items s2)"
    unfolding s2_def using r(5) r(8) r(9) by (rule strictly_sorted_by_compare)
  moreover have "sorted (map key_bytes (active_items s2))" unfolding s2_def by (rule r(5))
  moreover have "fst (kastore_open c f ''r'' fl') = None" by (rule r(3))
  ultimately show ?thesis by blast
qed

theorem written_file_reads_sorted_witness:
  "consts_ok example_consts \<and> list_all call_ok example_calls \<and>
   distinct (map fst example_calls) \<and> calls_room example_calls = 214 \<and>
   sorted_wrt (\<lambda>a b. compare_items a b < 0)
     (active_items (snd (kastore_open example_consts
        (fst (snd (snd (kastore_close example_consts
           (snd (put_all (snd (kastore_open example_consts None ''w'' 0)) example_calls))))))
        ''r'' 0)))"
proof -
  have ok: "consts_ok example_consts"
    by (simp add: consts_ok_def example_consts_def)
  have calls: "\<forall>p\<in>set example_calls. call_ok p"
    by (simp add: example_calls_def call_ok_def type_size_def)
  have dst: "distinct (map fst example_calls)" by (simp add: example_calls_def)
  have n32: "length example_calls < 2 ^ 32" by (simp add: example_calls_def)
  have room: "calls_room example_calls = 214" by (simp add: example_calls_def calls_room_def)
  then have room': "calls_room example_calls < 2 ^ 64" by simp
  note T = written_file_reads_sorted [OF ok calls dst n32 room', of None 0 0]
  from T have "sorted_wrt (\<lambda>a b. compare_items a b < 0)
     (active_items (snd (kastore_open example_consts
        (fst (snd (snd (kastore_close example_consts
           (snd (put_all (snd (kastore_open example_consts None ''w'' 0)) example_calls))))))
        ''r'' 0)))" by blast
  with ok calls dst room show ?thesis by (simp add: list_all_iff)
qed

section \<open>Rejected calls of put\<close>

lemma put_bad_type:
  "ty < 0 \<or> 8 \<le> ty \<Longrightarrow> kastore_put s k klen arr alen ty fl = (Some KAS_ERR_BAD_TYPE, s)"
  by (auto simp: kastore_put_def)

lemma put_empty_key:
  "0 \<le> ty \<Longrightarrow> ty < 8 \<Longrightarrow> kastore_put s k 0 arr alen ty fl = (Some KAS_ERR_EMPTY_KEY, s)"
  by (simp add: kastore_put_def)

text \<open>
  C8. \<open>kastore_put\<close> returns \<open>KAS_ERR_BAD_TYPE\<close> for a type tag outside 0..7, and
  \<open>KAS_ERR_EMPTY_KEY\<close> for a key of length 0 (with a valid tag: the tag is checked
  first); in both cases the store is returned as it was. On a store built by accepted
  calls, a further call with a valid tag whose key is one of those already put returns
  \<open>KAS_ERR_DUPLICATE_KEY\<close>; the items in use and every field of the store but the
  allocation of the array are as before; and after close and a read-mode open of the
  written file, get on that key returns the array, element count and type of the first
  call.
\<close>

theorem put_rejections_keep_the_store:
  fixes disk :: "byte list option" and fl fl' flp flq :: int
  assumes ok: "consts_ok c" and calls: "\<forall>p\<in>set ps. call_ok p"
    and dst: "distinct (map fst ps)" and n32: "length ps < 2 ^ 32"
    and room: "calls_room ps < 2 ^ 64"
    and first: "(k, arr, alen, ty) \<in> set ps" and again: "call_ok (k, arr', alen', ty')"
  defines "s1 \<equiv> snd (put_all (snd (kastore_open c disk ''w'' fl)) ps)"
  defines "s1' \<equiv> snd (kastore_put s1 k (of_nat (length k)) arr' alen' ty' flp)"
  defines "f \<equiv> fst (snd (snd (kastore_close c s1')))"
  defines "s2 \<equiv> snd (kastore_open c f ''r'' fl')"
  shows "(t < 0 \<or> 8 \<le> t \<longrightarrow> kastore_put s ky klen a n t flq = (Some KAS_ERR_BAD_TYPE, s)) \<and>
         (0 \<le> t \<and> t < 8 \<longrightarrow> kastore_put s ky 0 a n t flq = (Some KAS_ERR_EMPTY_KEY, s)) \<and>
         fst (kastore_put s1 k (of_nat (length k)) arr' alen' ty' flp)
           = Some KAS_ERR_DUPLICATE_KEY \<and>
         active_items s1' = active_items s1 \<and> s1'\<lparr>items := items s1\<rparr> = s1 \<and>
         fst (kastore_close c s1') = None \<and>
         fst (kastore_open c f ''r'' fl') = None \<and>
         get_view (kastore_get s2 k (of_nat (length k))) = Inr (arr, alen, ty)"
proof -
  note p = puts_on_new_store [OF ok calls dst n32, of disk fl, folded s1_def]
  have fit: "\<forall>x\<in>set (active_items s1). key_fits x"
    using calls call_ok_item(1) item_ok_fits by (auto simp: p(5))
  have "key_bytes (item_of_call (k, arr, alen, ty)) = k"
    using call_ok_item(2) [of "(k, arr, alen, ty)"] calls first by auto
  then have old: "k \<in> key_bytes ` set (active_items s1)"
    using first by (force simp: p(5))
  have put: "kastore_put s1 k (of_nat (length k)) arr' alen' ty' flp
           = (Some KAS_ERR_DUPLICATE_KEY,
              s1\<lparr>items := active_items s1 @ [item_of_call (k, arr', alen', ty')],
                num_items := num_items s1\<rparr>)"
    using again p(4) fit old by (rule put_duplicate)
  then have s1': "s1' = s1\<lparr>items := active_items s1 @ [item_of_call (k, arr', alen', ty')],
                num_items := num_items s1\<rparr>"
    by (simp add: s1'_def)
  have la: "length (active_items s1) = unat (num_items s1)"
    using p(4) by (rule length_active_items)
  have act: "active_items s1' = active_items s1"
    using la by (simp add: s1' active_items_append)
  have same: "s1'\<lparr>items := items s1\<rparr> = s1" by (simp add: s1')
  have m: "mode s1' = KAS_WRITE c" "file_p s1' = Some []"
    "unat (num_items s1') \<le> length (items s1')"
    "active_items s1' = map item_of_call ps"
    using p la act by (simp_all add: s1')
  note r = roundtrip_calls [OF ok calls dst n32 room m, folded f_def]
  have "get_view (kastore_get s2 k (of_nat (length k))) = Inr (arr, alen, ty)"
    unfolding s2_def using bspec [OF r(6) first] by simp
  moreover have "fst (kastore_put s1 k (of_nat (length k)) arr' alen' ty' flp)
           = Some KAS_ERR_DUPLICATE_KEY" by (simp add: put)
  moreover note put_bad_type [of t s ky klen a n flq] put_empty_key [of t s ky a n flq]
    act same r(1) r(3)
  ultimately show ?thesis by blast
qed

theorem put_rejections_keep_the_store_witness:
  "consts_ok example_consts \<and> list_all call_ok example_calls \<and>
   distinct (map fst example_calls) \<and> calls_room example_calls = 214 \<and>
   ([98], [0x44, 0x33, 0x22, 0x11], 1, 2) \<in> set example_calls \<and> call_ok ([98], [9], 1, 0) \<and>
   kastore_put kastore_zero [98] 1 [9] 1 8 0 = (Some KAS_ERR_BAD_TYPE, kastore_zero) \<and>
   kastore_put kastore_zero [] 0 [9] 1 0 0 = (Some KAS_ERR_EMPTY_KEY, kastore_zero) \<and>
   fst (kastore_put (snd (put_all (snd (kastore_open example_consts None ''w'' 0)) example_calls))
          [98] 1 [9] 1 0 0) = Some KAS_ERR_DUPLICATE_KEY \<and>
   get_view (kastore_get
     (snd (kastore_open example_consts
        (fst (snd (snd (kastore_close example_consts
           (snd (kastore_put
                  (snd (put_all (snd (kastore_open example_consts None ''w'' 0)) example_calls))
                  [98] 1 [9] 1 0 0))))))
        ''r'' 0)) [98] 1) = Inr ([0x44, 0x33, 0x22, 0x11], 1, 2)"
proof -
  have ok: "consts_ok example_consts"
    by (simp add: consts_ok_def example_consts_def)
  have calls: "\<forall>p\<in>set example_calls. call_ok p"
    by (simp add: example_calls_def call_ok_def type_size_def)
  have dst: "distinct (map fst example_calls)" by (simp add: example_calls_def)
  have n32: "length example_calls < 2 ^ 32" by (simp add: example_calls_def)
  have room: "calls_room example_calls = 214" by (simp add: example_calls_def calls_room_def)
  then have room': "calls_room example_calls < 2 ^ 64" by simp
  have first: "([98], [0x44, 0x33, 0x22, 0x11], 1, 2) \<in> set example_calls"
    by (simp add: example_calls_def)
  have again: "call_ok ([98], [9], 1, 0)" by (simp add: call_ok_def type_size_def)
  note T = put_rejections_keep_the_store [where disk = None and fl = 0 and fl' = 0 and flp = 0
      and t = 8 and s = kastore_zero and ky = "[98]" and klen = 1 and a = "[9]" and n = 1
      and flq = 0, OF ok calls dst n32 room' first again]
  note U = put_rejections_keep_the_store [where disk = None and fl = 0 and fl' = 0 and flp = 0
      and t = 0 and s = kastore_zero and ky = "[]" and klen = 0 and a = "[9]" and n = 1
      and flq = 0, OF ok calls dst n32 room' first again]
  from T have a: "kastore_put kastore_zero [98] 1 [9] 1 8 0 = (Some KAS_ERR_BAD_TYPE, kastore_zero)"
    by simp
  from U have b: "kastore_put kastore_zero [] 0 [9] 1 0 0 = (Some KAS_ERR_EMPTY_KEY, kastore_zero)"
    by simp
  from T have c: "fst (kastore_put (snd (put_all (snd (kastore_open example_consts None ''w'' 0)) example_calls))
          [98] 1 [9] 1 0 0) = Some KAS_ERR_DUPLICATE_KEY"
    by simp
  from T have d: "get_view (kastore_get
     (snd (kastore_open example_consts
        (fst (snd (snd (kastore_close example_consts
           (snd (kastore_put
                  (snd (put_all (snd (kastore_open example_consts None ''w'' 0)) example_calls))
                  [98] 1 [9] 1 0 0))))))
        ''r'' 0)) [98] 1) = Inr ([0x44, 0x33, 0x22, 0x11], 1, 2)"
    by simp
  from ok calls dst room first again a b c d show ?thesis by (simp add: list_all_iff)
qed

section \<open>The mode of the store in put and get\<close>

text \<open>
  C7, as the code has it. Neither \<open>kastore_put\<close> nor \<open>kastore_get\<close> reads the mode:
  on the store that a read-mode open of the empty store's file returns, put succeeds;
  on a store opened for writing, get finds the key that was just put.
\<close>

theorem put_and_get_in_the_other_mode:
  "fst (kastore_open example_consts (Some empty_store_file) ''r'' 0) = None \<and>
   mode (snd (kastore_open example_consts (Some empty_store_file) ''r'' 0))
     = KAS_READ example_consts \<and>
   fst (kastore_put (snd (kastore_open example_consts (Some empty_store_file) ''r'' 0))
          [107] 1 [1, 2, 3] 3 0 0) = None \<and>
   fst (kastore_open example_consts None ''w'' 0) = None \<and>
   mode (snd (kastore_open example_consts None ''w'' 0)) = KAS_WRITE example_consts \<and>
   kastore_get
     (snd (kastore_put (snd (kastore_open example_consts None ''w'' 0)) [107] 1 [1, 2, 3] 3 0 0))
     [107] 1 = Inr ([1, 2, 3], 3, 0)"
  by (simp add: eval_simps)

lemma put_error_keeps_items:
  assumes "fst (kastore_put s k klen arr alen ty fl) \<noteq> None"
    and "unat (num_items s) \<le> length (items s)"
  shows "active_items (snd (kastore_put s k klen arr alen ty fl)) = active_items s \<and>
         (snd (kastore_put s k klen arr alen ty fl))\<lparr>items := items s\<rparr> = s"
proof -
  have la: "length (active_items s) = unat (num_items s)"
    using assms(2) by (rule length_active_items)
  have "active_items (s\<lparr>items := active_items s @ [x]\<rparr>) = active_items s" for x
    using la by (simp add: active_items_append)
  with assms(1) show ?thesis
    by (auto simp: kastore_put_def Let_def split: if_splits)
qed

text \<open>
  C7, amended. The results of put and get do not depend on the mode of the store, which
  put carries over unchanged. Whenever put returns an error, the items in use and every
  field of the store but the allocation of the array are as before; get does not change
  the store.
\<close>

theorem put_get_ignore_mode:
  "kastore_put (s\<lparr>mode := m\<rparr>) k klen arr alen ty fl
     = (fst (kastore_put s k klen arr alen ty fl),
        (snd (kastore_put s k klen arr alen ty fl))\<lparr>mode := m\<rparr>) \<and>
   kastore_get (s\<lparr>mode := m\<rparr>) k klen = kastore_get s k klen \<and>
   (fst (kastore_put s k klen arr alen ty fl) \<noteq> None \<and>
    unat (num_items s) \<le> length (items s) \<longrightarrow>
      active_items (snd (kastore_put s k klen arr alen ty fl)) = active_items s \<and>
      (snd (kastore_put s k klen arr alen ty fl))\<lparr>items := items s\<rparr> = s)"
proof -
  have a: "active_items (s\<lparr>mode := m\<rparr>) = active_items s" by (simp add: active_items_def)
  have "kastore_put (s\<lparr>mode := m\<rparr>) k klen arr alen ty fl
     = (fst (kastore_put s k klen arr alen ty fl),
        (snd (kastore_put s k klen arr alen ty fl))\<lparr>mode := m\<rparr>)"
    by (simp add: kastore_put_def Let_def a)
  moreover have "kastore_get (s\<lparr>mode := m\<rparr>) k klen = kastore_get s k klen"
    by (simp add: kastore_get_def a)
  ultimately show ?thesis using put_error_keeps_items [of s k klen arr alen ty fl] by blast
qed

theorem put_get_ignore_mode_witness:
  "fst (kastore_put (snd (kastore_put kastore_zero [98] 1 [1] 1 0 0)) [98] 1 [2] 1 0 0)
     = Some KAS_ERR_DUPLICATE_KEY \<and>
   unat (num_items (snd (kastore_put kastore_zero [98] 1 [1] 1 0 0)))
     \<le> length (items (snd (kastore_put kastore_zero [98] 1 [1] 1 0 0))) \<and>
   active_items (snd (kastore_put (snd (kastore_put kastore_zero [98] 1 [1] 1 0 0))
                        [98] 1 [2] 1 0 0))
     = active_items (snd (kastore_put kastore_zero [98] 1 [1] 1 0 0))"
proof -
  have e: "fst (kastore_put (snd (kastore_put kastore_zero [98] 1 [1] 1 0 0)) [98] 1 [2] 1 0 0)
     = Some KAS_ERR_DUPLICATE_KEY"
    by (simp add: eval_simps)
  have l: "unat (num_items (snd (kastore_put kastore_zero [98] 1 [1] 1 0 0)))
     \<le> length (items (snd (kastore_put kastore_zero [98] 1 [1] 1 0 0)))"
    by (simp add: eval_simps)
  from e have ne: "fst (kastore_put (snd (kastore_put kastore_zero [98] 1 [1] 1 0 0))
      [98] 1 [2] 1 0 0) \<noteq> None" by simp
  from put_get_ignore_mode [where s = "snd (kastore_put kastore_zero [98] 1 [1] 1 0 0)"
      and m = 0 and k = "[98]" and klen = 1 and arr = "[2]" and alen = 1 and ty = 0 and fl = 0]
    ne l
  have "active_items (snd (kastore_put (snd (kastore_put kastore_zero [98] 1 [1] 1 0 0))
                        [98] 1 [2] 1 0 0))
     = active_items (snd (kastore_put kastore_zero [98] 1 [1] 1 0 0))" by blast
  with e l show ?thesis by blast
qed

section \<open>Opening with and without the mapping\<close>

lemma active_items_flags [simp]: "active_items (s\<lparr>flags := a\<rparr>) = active_items s"
  by (simp add: active_items_def)




lemma load_u64_header: "load_u64 (drop 16 (take 64 f)) = load_u64 (drop 16 f)"
  by (simp add: load_u64_def drop_take)

lemma read_header_success:
  assumes "kastore_read_header c s = (None, h)" "file_p s = Some f"
  shows "64 \<le> length f" and "file_size h = load_u64 (drop 16 f)" and "64 \<le> file_size h"
    and "file_p h = Some f" and "items h = items s"
    and "num_items h = ucast (load_u32 (drop 12 (take 64 f)))"
    and "strncmp (take 64 f) (KAS_MAGIC c) 8 = 0"
    and "uint (load_u16 (drop 8 (take 64 f))) = KAS_FILE_VERSION_MAJOR c"
  using assms
  by (auto simp: kastore_read_header_def Let_def load_u64_header not_less split: if_splits)

lemma buffer_short_file:
  assumes "file_p h = Some f" "length f < unat (file_size h)"
  shows "fst (kastore_mmap_file h) = Some KAS_ERR_BAD_FILE_FORMAT"
    and "fst (kastore_read_file h) = Some KAS_ERR_BAD_FILE_FORMAT"
    and "active_items (snd (kastore_mmap_file h)) = active_items h"
    and "active_items (snd (kastore_read_file h)) = active_items h"
proof -
  have "file_size h \<noteq> of_nat (length f)"
  proof
    assume "file_size h = of_nat (length f)"
    then have "unat (file_size h) = length f mod 2 ^ 64" by (simp add: unat_of_nat)
    with assms(2) show False
      by (metis mod_less_eq_dividend not_le)
  qed
  with assms show "fst (kastore_mmap_file h) = Some KAS_ERR_BAD_FILE_FORMAT"
    and "fst (kastore_read_file h) = Some KAS_ERR_BAD_FILE_FORMAT"
    and "active_items (snd (kastore_mmap_file h)) = active_items h"
    and "active_items (snd (kastore_read_file h)) = active_items h"
    by (simp_all add: kastore_mmap_file_def kastore_read_file_def Let_def
        kastore_get_read_io_error_def active_items_def)
qed





section \<open>The tests of the reader\<close>

lemma parse_descriptors_step:
  assumes "unat off = 64 + 64 * k"
  shows "descriptor_in_bounds fs (descriptor_at buf k) \<Longrightarrow>
           parse_descriptors buf fs off (kaitem_zero # its)
             = (fst (parse_descriptors buf fs (off + 64) its),
                descriptor_at buf k # snd (parse_descriptors buf fs (off + 64) its))"
    and "\<not> descriptor_in_bounds fs (descriptor_at buf k) \<Longrightarrow>
           fst (parse_descriptors buf fs off (kaitem_zero # its)) \<noteq> None"
proof -
  have d: "drop (unat off) buf = drop (64 + k * 64) buf" using assms by (simp add: mult.commute)
  have ty: "uint (load_u8 x) < 8 \<longleftrightarrow> \<not> 8 \<le> load_u8 x" for x
    by (simp add: word_le_def not_le)
  show "descriptor_in_bounds fs (descriptor_at buf k) \<Longrightarrow>
           parse_descriptors buf fs off (kaitem_zero # its)
             = (fst (parse_descriptors buf fs (off + 64) its),
                descriptor_at buf k # snd (parse_descriptors buf fs (off + 64) its))"
    unfolding parse_descriptors.simps Let_def d
    by (simp add: descriptor_at_def descriptor_in_bounds_def Let_def kaitem_zero_def ty
        split_beta)
  show "\<not> descriptor_in_bounds fs (descriptor_at buf k) \<Longrightarrow>
           fst (parse_descriptors buf fs off (kaitem_zero # its)) \<noteq> None"
    unfolding parse_descriptors.simps Let_def d
    by (simp add: descriptor_at_def descriptor_in_bounds_def Let_def kaitem_zero_def ty
        split_beta) blast
qed

lemma parse_descriptors_at:
  assumes "unat off = 64 + 64 * k" "64 + 64 * (k + n) < (2::nat) ^ 64"
  shows "parse_descriptors buf fs off (replicate n kaitem_zero) = (None, its) \<longleftrightarrow>
           its = map (descriptor_at buf) [k..<k + n] \<and>
           (\<forall>j\<in>{k..<k + n}. descriptor_in_bounds fs (descriptor_at buf j))"
  using assms
proof (induction n arbitrary: off k its)
  case 0
  then show ?case by auto
next
  case (Suc n)
  have u: "unat (off + 64) = 64 + 64 * Suc k"
    using Suc.prems by (simp add: unat_add_lem [THEN iffD1])
  have b: "64 + 64 * (Suc k + n) < (2::nat) ^ 64" using Suc.prems by simp
  note ih = Suc.IH [OF u b]
  have upt: "[k..<k + Suc n] = k # [Suc k..<Suc k + n]" by (simp add: upt_conv_Cons)
  have set: "{k..<k + Suc n} = insert k {Suc k..<Suc k + n}" by auto
  note st = parse_descriptors_step [OF Suc.prems(1), of fs buf "replicate n kaitem_zero"]
  show ?case
  proof (cases "descriptor_in_bounds fs (descriptor_at buf k)")
    case True
    show ?thesis
      unfolding upt set replicate_Suc st(1) [OF True]
      using True ih [of "tl its"] ih [of "snd (parse_descriptors buf fs (off + 64) (replicate n kaitem_zero))"]
      by (cases its) (auto simp add: prod_eq_iff)
  next
    case False
    from st(2) [OF False] False show ?thesis
      unfolding set replicate_Suc by auto
  qed
qed


lemma check_keys_fields:
  "map numeric_fields xs = map numeric_fields ys \<Longrightarrow> check_keys off xs = check_keys off ys"
proof (induction xs arbitrary: ys off)
  case Nil
  then show ?case by simp
next
  case (Cons x xs)
  then obtain y ys' where "ys = y # ys'" by (cases ys) auto
  with Cons show ?case by (auto simp add: numeric_fields_def)
qed

lemma check_arrays_fields:
  "map numeric_fields xs = map numeric_fields ys \<Longrightarrow> check_arrays off xs = check_arrays off ys"
proof (induction xs arbitrary: ys off)
  case Nil
  then show ?case by simp
next
  case (Cons x xs)
  then obtain y ys' where "ys = y # ys'" by (cases ys) auto
  with Cons show ?case by (auto simp add: numeric_fields_def Let_def)
qed

lemma descriptor_in_bounds_fields:
  "numeric_fields a = numeric_fields b \<Longrightarrow> descriptor_in_bounds fs a = descriptor_in_bounds fs b"
  by (simp add: numeric_fields_def descriptor_in_bounds_def)

lemma follows_packing_walk_fields:
  assumes "map numeric_fields xs = map numeric_fields ys"
  shows "follows_packing_walk n xs = follows_packing_walk n ys"
proof -
  have l: "length xs = length ys" using assms by (rule map_eq_imp_length_eq)
  have nth: "numeric_fields (xs ! j) = numeric_fields (ys ! j)" if "j < length xs" for j
    using assms that l by (metis nth_map)
  have e: "xs = [] \<longleftrightarrow> ys = []" using l by auto
  have h: "numeric_fields (hd xs) = numeric_fields (hd ys)" if "xs \<noteq> []"
    using that e nth [of 0] by (simp add: hd_conv_nth)
  have la: "numeric_fields (last xs) = numeric_fields (last ys)" if "xs \<noteq> []"
    using that e l nth [of "length xs - 1"] by (simp add: last_conv_nth)
  have s: "(\<forall>x\<in>set xs. array_start x mod 8 = 0) \<longleftrightarrow> (\<forall>y\<in>set ys. array_start y mod 8 = 0)"
  proof -
    have "array_start ` set xs = array_start ` set ys"
    proof -
      have "map array_start xs = map (\<lambda>p. fst (snd (snd (snd p)))) (map numeric_fields xs)"
        by (simp add: numeric_fields_def)
      also have "\<dots> = map array_start ys" unfolding assms by (simp add: numeric_fields_def)
      finally show ?thesis by (metis set_map)
    qed
    then show ?thesis by (metis (mono_tags, lifting) image_iff)
  qed
  show ?thesis
  proof (cases "xs = []")
    case True
    with e show ?thesis by simp
  next
    case False
    with e have ys: "ys \<noteq> []" by simp
    have k: "key_start (xs ! Suc j) = key_start (xs ! j) + key_len (xs ! j) \<longleftrightarrow>
             key_start (ys ! Suc j) = key_start (ys ! j) + key_len (ys ! j)"
      if "j < length xs - 1" for j
      using nth [of j] nth [of "Suc j"] that by (simp add: numeric_fields_def)
    have a: "array_start (xs ! Suc j)
               = align_up (array_start (xs ! j) + array_len (xs ! j) * type_size (type (xs ! j))) \<longleftrightarrow>
             array_start (ys ! Suc j)
               = align_up (array_start (ys ! j) + array_len (ys ! j) * type_size (type (ys ! j)))"
      if "j < length xs - 1" for j
      using nth [of j] nth [of "Suc j"] that by (simp add: numeric_fields_def)
    show ?thesis
      using h [OF False] la [OF False] False ys k a s l
      by (simp add: follows_packing_walk_def list_all_iff numeric_fields_def)
  qed
qed

lemma numeric_fields_descriptor_at:
  assumes "take 64 (drop (64 + 64 * j) a) = take 64 (drop (64 + 64 * j) b)"
  shows "numeric_fields (descriptor_at a j) = numeric_fields (descriptor_at b j)"
proof -
  have t: "take n (drop k (drop (64 + j * 64) x))
             = take n (drop k (take 64 (drop (64 + j * 64) x)))" if "k + n \<le> 64" for n k x
    using that by (simp add: drop_take min_def)
  have e: "take n (drop k (drop (64 + j * 64) a)) = take n (drop k (drop (64 + j * 64) b))"
    if "k + n \<le> 64" for n k
    using assms t [OF that, of a] t [OF that, of b] by (simp add: mult.commute)
  have e0: "take 1 (drop (64 + j * 64) a) = take 1 (drop (64 + j * 64) b)"
    using e [of 0 1] by simp
  show ?thesis
    using e [of 8 8] e [of 16 8] e [of 24 8] e [of 32 8] e0
    by (simp add: numeric_fields_def descriptor_at_def Let_def kaitem_zero_def
        load_u64_def load_u8_def)
qed

lemma numeric_fields_descriptor_at_take:
  assumes "64 + 64 * j + 64 \<le> m"
  shows "numeric_fields (descriptor_at (take m g) j) = numeric_fields (descriptor_at g j)"
  by (rule numeric_fields_descriptor_at) (use assms in \<open>simp add: drop_take min_def\<close>)

lemma numeric_fields_descriptor_at_drop:
  assumes "drop 64 a = drop 64 b"
  shows "numeric_fields (descriptor_at a j) = numeric_fields (descriptor_at b j)"
proof (rule numeric_fields_descriptor_at)
  have "drop (64 + 64 * j) x = drop (64 * j) (drop 64 x)" for x :: "byte list"
    by (simp add: add.commute)
  then show "take 64 (drop (64 + 64 * j) a) = take 64 (drop (64 + 64 * j) b)"
    by (simp only: assms)
qed


lemma descriptors_accepted_fields:
  assumes "map numeric_fields xs = map numeric_fields ys"
  shows "descriptors_accepted fs n xs = descriptors_accepted fs n ys"
proof -
  have l: "length xs = length ys" using assms by (rule map_eq_imp_length_eq)
  have nth: "numeric_fields (xs ! j) = numeric_fields (ys ! j)" if "j < length xs" for j
    using assms that l by (metis nth_map)
  have "list_all (descriptor_in_bounds fs) xs = list_all (descriptor_in_bounds fs) ys"
    using l nth descriptor_in_bounds_fields [of "xs ! j" "ys ! j" fs for j]
    by (simp add: list_all_length)
  then show ?thesis
    by (simp add: descriptors_accepted_def check_keys_fields [OF assms]
        check_arrays_fields [OF assms] split: option.splits)
qed

lemma read_descriptors_accepts:
  assumes buf: "read_buffer a = Some buf"
    and its: "items a = replicate (unat (num_items a)) kaitem_zero"
    and n32: "unat (num_items a) < 2 ^ 32"
  defines "D \<equiv> map (descriptor_at buf) [0..<unat (num_items a)]"
  shows "fst (kastore_read_descriptors a) = None
           \<longleftrightarrow> descriptors_accepted (file_size a) (num_items a) D"
    and "fst (kastore_read_descriptors a) = None
           \<Longrightarrow> snd (kastore_read_descriptors a) = a\<lparr>items := D\<rparr>"
proof -
  define n where "n = unat (num_items a)"
  have act: "active_items a = replicate n kaitem_zero" by (simp add: active_items_def its n_def)
  have b: "64 + 64 * (0 + n) < (2::nat) ^ 64" using n32 by (simp add: n_def)
  have pa: "parse_descriptors buf (file_size a) 64 (replicate n kaitem_zero) = (None, xs) \<longleftrightarrow>
              xs = D \<and> list_all (descriptor_in_bounds (file_size a)) D" for xs
    using parse_descriptors_at [of 64 0 n buf "file_size a" xs, OF _ b]
    by (simp add: D_def n_def list_all_iff)
  obtain r xs where p: "parse_descriptors buf (file_size a) 64 (replicate n kaitem_zero) = (r, xs)"
    by (cases "parse_descriptors buf (file_size a) 64 (replicate n kaitem_zero)")
  have lD: "length D = n" by (simp add: D_def n_def)
  have aD: "active_items (a\<lparr>items := D\<rparr>) = D" using lD by (simp add: active_items_def n_def)
  have both: "(fst (kastore_read_descriptors a) = None
           \<longleftrightarrow> descriptors_accepted (file_size a) (num_items a) D) \<and>
         (fst (kastore_read_descriptors a) = None
           \<longrightarrow> snd (kastore_read_descriptors a) = a\<lparr>items := D\<rparr>)"
  proof (cases r)
    case None
    with p pa have xs: "xs = D" and inb: "list_all (descriptor_in_bounds (file_size a)) D"
      by simp_all
    have d: "drop n (replicate n kaitem_zero) = []" by simp
    show ?thesis
      unfolding kastore_read_descriptors_def Let_def buf act option.case
      using p None xs inb aD
      by (auto simp add: its n_def [symmetric] descriptors_accepted_def
          split: option.splits)
  next
    case (Some e)
    have "\<not> list_all (descriptor_in_bounds (file_size a)) D"
    proof
      assume "list_all (descriptor_in_bounds (file_size a)) D"
      with pa [of D] p Some show False by simp
    qed
    then show ?thesis
      unfolding kastore_read_descriptors_def Let_def buf act option.case
      using p Some by (simp add: descriptors_accepted_def)
  qed
  from both show "fst (kastore_read_descriptors a) = None
           \<longleftrightarrow> descriptors_accepted (file_size a) (num_items a) D" by blast
  from both show "fst (kastore_read_descriptors a) = None
           \<Longrightarrow> snd (kastore_read_descriptors a) = a\<lparr>items := D\<rparr>" by blast
qed


lemma load_header_fields:
  "load_u16 (drop 8 (take 64 f)) = load_u16 (drop 8 f)"
  "load_u16 (drop 10 (take 64 f)) = load_u16 (drop 10 f)"
  "load_u32 (drop 12 (take 64 f)) = load_u32 (drop 12 f)"
  by (simp_all add: load_u16_def load_u32_def drop_take)

lemma read_header_cases:
  assumes f: "file_p s = Some g"
  defines "h \<equiv> s\<lparr>file_version := (uint (load_u16 (drop 8 g)), uint (load_u16 (drop 10 g))),
                  num_items := ucast (load_u32 (drop 12 g)),
                  file_size := load_u64 (drop 16 g)\<rparr>"
  shows "length g < 64 \<Longrightarrow> fst (kastore_read_header c s) = Some KAS_ERR_BAD_FILE_FORMAT"
    and "64 \<le> length g \<Longrightarrow> strncmp (take 64 g) (KAS_MAGIC c) 8 \<noteq> 0
           \<Longrightarrow> fst (kastore_read_header c s) = Some KAS_ERR_BAD_FILE_FORMAT"
    and "64 \<le> length g \<Longrightarrow> strncmp (take 64 g) (KAS_MAGIC c) 8 = 0
           \<Longrightarrow> uint (load_u16 (drop 8 g)) < KAS_FILE_VERSION_MAJOR c
           \<Longrightarrow> fst (kastore_read_header c s) = Some KAS_ERR_VERSION_TOO_OLD"
    and "64 \<le> length g \<Longrightarrow> strncmp (take 64 g) (KAS_MAGIC c) 8 = 0
           \<Longrightarrow> uint (load_u16 (drop 8 g)) > KAS_FILE_VERSION_MAJOR c
           \<Longrightarrow> fst (kastore_read_header c s) = Some KAS_ERR_VERSION_TOO_NEW"
    and "64 \<le> length g \<Longrightarrow> strncmp (take 64 g) (KAS_MAGIC c) 8 = 0
           \<Longrightarrow> uint (load_u16 (drop 8 g)) = KAS_FILE_VERSION_MAJOR c
           \<Longrightarrow> load_u64 (drop 16 g) < 64
           \<Longrightarrow> fst (kastore_read_header c s) = Some KAS_ERR_BAD_FILE_FORMAT"
    and "64 \<le> length g \<Longrightarrow> strncmp (take 64 g) (KAS_MAGIC c) 8 = 0
           \<Longrightarrow> uint (load_u16 (drop 8 g)) = KAS_FILE_VERSION_MAJOR c
           \<Longrightarrow> 64 \<le> load_u64 (drop 16 g)
           \<Longrightarrow> kastore_read_header c s = (None, h)"
  unfolding h_def
  by (simp_all add: kastore_read_header_def Let_def f load_header_fields load_u64_header
      kastore_get_read_io_error_def not_less)

lemma read_header_error:
  "fst (kastore_read_header c s) = Some e \<Longrightarrow> fst (kastore_read c s) = Some e"
  by (cases "kastore_read_header c s") (simp add: kastore_read_def)

lemma unat_ucast_32: "unat (ucast (w :: 32 word) :: size_t) < 2 ^ 32"
  using unsigned_less [of w, where ?'a = nat]
  by (simp add: unsigned_ucast_eq unsigned_take_bit_eq take_bit_nat_eq_self)

lemma read_accepts:
  assumes f: "file_p s = Some g"
  defines "N \<equiv> (ucast (load_u32 (drop 12 g)) :: size_t)"
  defines "FS \<equiv> load_u64 (drop 16 g)"
  defines "D \<equiv> map (descriptor_at (take (unat FS) g)) [0..<unat N]"
  shows "fst (kastore_read c s) = None \<longleftrightarrow>
           64 \<le> length g \<and> strncmp (take 64 g) (KAS_MAGIC c) 8 = 0 \<and>
           uint (load_u16 (drop 8 g)) = KAS_FILE_VERSION_MAJOR c \<and> 64 \<le> FS \<and>
           (if mmap_gate c s then FS = of_nat (length g) else unat FS \<le> length g) \<and>
           (N = 0 \<or> descriptors_accepted FS N D)"
    and "fst (kastore_read c s) = None \<Longrightarrow>
           num_items (snd (kastore_read c s)) = N \<and> file_size (snd (kastore_read c s)) = FS \<and>
           active_items (snd (kastore_read c s)) = D"
proof -
  define h where "h = s\<lparr>file_version := (uint (load_u16 (drop 8 g)), uint (load_u16 (drop 10 g))),
                  num_items := N, file_size := FS\<rparr>"
  define HOK where "HOK \<longleftrightarrow> 64 \<le> length g \<and> strncmp (take 64 g) (KAS_MAGIC c) 8 = 0 \<and>
           uint (load_u16 (drop 8 g)) = KAS_FILE_VERSION_MAJOR c \<and> 64 \<le> FS"
  define B where "B \<longleftrightarrow> (if mmap_gate c s then FS = of_nat (length g) else unat FS \<le> length g)"
  note hc = read_header_cases [OF f, of c, folded N_def FS_def, folded h_def]
  have both: "(fst (kastore_read c s) = None \<longleftrightarrow> HOK \<and> B \<and> (N = 0 \<or> descriptors_accepted FS N D)) \<and>
        (fst (kastore_read c s) = None \<longrightarrow>
           num_items (snd (kastore_read c s)) = N \<and> file_size (snd (kastore_read c s)) = FS \<and>
           active_items (snd (kastore_read c s)) = D)"
  proof (cases HOK)
    case False
    then have "\<exists>e. fst (kastore_read_header c s) = Some e"
      using hc(1-5) unfolding HOK_def by (metis not_less linorder_neqE_linordered_idom)
    then obtain e where "fst (kastore_read_header c s) = Some e" ..
    from read_header_error [OF this] False show ?thesis by simp
  next
    case True
    then have hd: "kastore_read_header c s = (None, h)" using hc(6) by (simp add: HOK_def)
    have fs64: "64 \<le> FS" using True by (simp add: HOK_def)
    then have "64 \<le> unat FS" by (simp add: word_le_nat_alt)
    then have nz: "unat FS \<noteq> 0" by simp
    have gate: "mmap_gate c h = mmap_gate c s" by (simp add: mmap_gate_def h_def)
    define s2 where "s2 = h\<lparr>read_buffer := Some (take (unat FS) g)\<rparr>"
    have buf: "(if mmap_gate c h then kastore_mmap_file h else kastore_read_file h)
                 = (if B then (None, s2) else (Some KAS_ERR_BAD_FILE_FORMAT,
                      if mmap_gate c s then h else s2))"
    proof -
      have hf: "file_p h = Some g" "file_size h = FS" by (simp_all add: h_def f)
      have m: "kastore_mmap_file h
                 = (if FS = of_nat (length g) then (None, s2) else (Some KAS_ERR_BAD_FILE_FORMAT, h))"
        by (simp add: kastore_mmap_file_def Let_def hf s2_def)
      have rf: "kastore_read_file h
                 = (if unat FS \<le> length g then (None, s2) else (Some KAS_ERR_BAD_FILE_FORMAT, s2))"
        using nz by (simp add: kastore_read_file_def Let_def hf s2_def
            kastore_get_read_io_error_def not_le)
      show ?thesis unfolding gate m rf B_def by (cases "mmap_gate c s") simp_all
    qed
    show ?thesis
    proof (cases B)
      case False
      then show ?thesis by (simp add: kastore_read_def hd buf)
    next
      case B: True
      have ns2: "num_items s2 = N" by (simp add: s2_def h_def)
      have r0: "kastore_read c s
                  = (if 0 < N then kastore_read_descriptors
                                     (s2\<lparr>items := replicate (unat N) kaitem_zero\<rparr>)
                     else (None, s2))"
        unfolding kastore_read_def hd prod.case option.case buf using B by (simp add: ns2)
      show ?thesis
      proof (cases "N = 0")
        case N0: True
        then have "kastore_read c s = (None, s2)" by (simp add: r0)
        with True B N0 show ?thesis by (simp add: s2_def h_def active_items_def D_def)
      next
        case N0: False
        define a where "a = s2\<lparr>items := replicate (unat N) kaitem_zero\<rparr>"
        have r: "kastore_read c s = kastore_read_descriptors a"
          using N0 by (simp add: r0 a_def word_neq_0_conv)
        have a1: "read_buffer a = Some (take (unat FS) g)" by (simp add: a_def s2_def)
        have a2: "items a = replicate (unat (num_items a)) kaitem_zero"
          by (simp add: a_def s2_def h_def)
        have a3: "unat (num_items a) < 2 ^ 32"
          using unat_ucast_32 [of "load_u32 (drop 12 g)"] by (simp add: a_def s2_def h_def N_def)
        have na: "num_items a = N" "file_size a = FS" by (simp_all add: a_def s2_def h_def)
        note ra = read_descriptors_accepts [OF a1 a2 a3, unfolded na, folded D_def]
        have lD: "length D = unat N" by (simp add: D_def)
        have "fst (kastore_read c s) = None \<longrightarrow>
           num_items (snd (kastore_read c s)) = N \<and> file_size (snd (kastore_read c s)) = FS \<and>
           active_items (snd (kastore_read c s)) = D"
          using ra(2) lD by (simp add: r na active_items_def)
        with ra(1) True B N0 show ?thesis by (simp add: r)
      qed
    qed
  qed
  from both show "fst (kastore_read c s) = None \<longleftrightarrow>
           64 \<le> length g \<and> strncmp (take 64 g) (KAS_MAGIC c) 8 = 0 \<and>
           uint (load_u16 (drop 8 g)) = KAS_FILE_VERSION_MAJOR c \<and> 64 \<le> FS \<and>
           (if mmap_gate c s then FS = of_nat (length g) else unat FS \<le> length g) \<and>
           (N = 0 \<or> descriptors_accepted FS N D)"
    unfolding HOK_def B_def by blast
  from both show "fst (kastore_read c s) = None \<Longrightarrow>
           num_items (snd (kastore_read c s)) = N \<and> file_size (snd (kastore_read c s)) = FS \<and>
           active_items (snd (kastore_read c s)) = D"
    by blast
qed

section \<open>The packing walk\<close>

lemma check_keys_walk:
  "check_keys off its = Some o1 \<Longrightarrow>
     (its = [] \<or> key_start (hd its) = off) \<and>
     (\<forall>j. Suc j < length its \<longrightarrow> key_start (its ! Suc j) = key_start (its ! j) + key_len (its ! j)) \<and>
     o1 = (if its = [] then off else key_start (last its) + key_len (last its))"
proof (induction its arbitrary: off)
  case Nil
  then show ?case by simp
next
  case (Cons it its)
  from Cons.prems have k: "key_start it = off"
    and c: "check_keys (off + key_len it) its = Some o1"
    by (simp_all split: if_splits)
  note ih = Cons.IH [OF c]
  have "key_start ((it # its) ! Suc j) = key_start ((it # its) ! j) + key_len ((it # its) ! j)"
    if j: "Suc j < length (it # its)" for j
  proof (cases j)
    case 0
    with j have "its \<noteq> []" by auto
    with ih have "key_start (hd its) = off + key_len it" by blast
    with 0 k \<open>its \<noteq> []\<close> show ?thesis by (simp add: hd_conv_nth)
  next
    case (Suc j')
    with j ih show ?thesis by simp
  qed
  with ih k show ?case by simp
qed

lemma check_arrays_walk:
  "check_arrays off its = Some o2 \<Longrightarrow>
     (its = [] \<or> array_start (hd its) = align_up off) \<and>
     (\<forall>j. Suc j < length its \<longrightarrow>
        array_start (its ! Suc j)
          = align_up (array_start (its ! j) + array_len (its ! j) * type_size (type (its ! j)))) \<and>
     (\<forall>it\<in>set its. array_start it mod 8 = 0) \<and>
     o2 = (if its = [] then off
           else array_start (last its) + array_len (last its) * type_size (type (last its)))"
proof (induction its arbitrary: off)
  case Nil
  then show ?case by simp
next
  case (Cons it its)
  from Cons.prems have k: "array_start it = align_up off"
    and c: "check_arrays (align_up off + array_len it * type_size (type it)) its = Some o2"
    by (simp_all add: Let_def split: if_splits)
  note ih = Cons.IH [OF c]
  have "array_start ((it # its) ! Suc j)
          = align_up (array_start ((it # its) ! j)
                      + array_len ((it # its) ! j) * type_size (type ((it # its) ! j)))"
    if j: "Suc j < length (it # its)" for j
  proof (cases j)
    case 0
    with j have "its \<noteq> []" by auto
    with ih have "array_start (hd its) = align_up (align_up off + array_len it * type_size (type it))"
      by blast
    with 0 k \<open>its \<noteq> []\<close> show ?thesis by (simp add: hd_conv_nth)
  next
    case (Suc j')
    with j ih show ?thesis by simp
  qed
  moreover have "array_start it mod 8 = 0" using k align_up_aligned [of off] by simp
  ultimately show ?case using ih k by simp
qed

lemma walk_of_checks:
  assumes k: "check_keys (64 + n * 64) its = Some o1" and a: "check_arrays o1 its = Some o2"
  shows "follows_packing_walk n its \<and> o2 = walk_end n its"
proof -
  note K = check_keys_walk [OF k] and A = check_arrays_walk [OF a]
  have "list_all (\<lambda>j. key_start (its ! Suc j) = key_start (its ! j) + key_len (its ! j))
          [0..<length its - 1]"
    using K by (simp add: list_all_iff)
  moreover have "list_all (\<lambda>j. array_start (its ! Suc j)
                      = align_up (array_start (its ! j)
                                  + array_len (its ! j) * type_size (type (its ! j))))
        [0..<length its - 1]"
    using A by (simp add: list_all_iff)
  moreover have "list_all (\<lambda>it. array_start it mod 8 = 0) its"
    using A by (simp add: list_all_iff)
  moreover have "its = [] \<or> key_start (hd its) = 64 + n * 64" using K by blast
  moreover have "its = [] \<or> array_start (hd its) = align_up (key_start (last its) + key_len (last its))"
    using K A by (cases "its = []") simp_all
  moreover have "o2 = walk_end n its" using K A by (cases "its = []") (simp_all add: walk_end_def)
  ultimately show ?thesis by (simp add: follows_packing_walk_def)
qed

lemma pack_items_walk:
  "follows_packing_walk (num_items p) (active_items (snd (kastore_pack_items p))) \<and>
   file_size (snd (kastore_pack_items p))
     = walk_end (num_items p) (active_items (snd (kastore_pack_items p))) \<and>
   fst (kastore_pack_items p) = None"
proof -
  define off0 where "off0 = 64 + num_items p * 64"
  define P1 where "P1 = fst (pack_keys off0 (active_items p))"
  define o1 where "o1 = snd (pack_keys off0 (active_items p))"
  define P where "P = fst (pack_arrays o1 P1)"
  define o2 where "o2 = snd (pack_arrays o1 P1)"
  have l: "length P = length (active_items p)" by (simp add: P_def P1_def)
  have "length (active_items p) \<le> unat (num_items p)" by (auto simp add: active_items_def)
  with l have a: "active_items (snd (kastore_pack_items p)) = P"
    by (simp add: kastore_pack_items_def Let_def split_beta active_items_def
        P_def P1_def off0_def o1_def) (rule linear)
  have f: "file_size (snd (kastore_pack_items p)) = o2"
    by (simp add: kastore_pack_items_def Let_def split_beta o2_def P1_def o1_def off0_def)
  have k: "check_keys (64 + num_items p * 64) P = Some o1"
    unfolding P_def using check_keys_pack_keys [of off0 "active_items p"]
    by (simp add: P1_def o1_def off0_def)
  have c: "check_arrays o1 P = Some o2"
    unfolding P_def o2_def by (rule check_arrays_pack_arrays)
  from walk_of_checks [OF k c] a f show ?thesis
    by (simp add: kastore_pack_items_def Let_def split_beta)
qed


lemma open_read:
  "kastore_open c (Some g) ''r'' fl
     = kastore_read c (kastore_zero\<lparr>mode := KAS_READ c, flags := fl, file_p := Some g\<rparr>)"
  by (simp add: kastore_open_def Let_def)

lemma unat_descriptors_end:
  assumes "unat (n :: size_t) < 2 ^ 32"
  shows "unat (64 + n * 64) = 64 + 64 * unat n"
proof -
  have m: "unat (n * 64) = unat n * 64"
    using assms by (simp add: unat_mult_lem [THEN iffD1])
  have "unat (64 + n * 64) = unat (64 :: size_t) + unat (n * 64)"
    using assms m by (simp add: unat_add_lem [THEN iffD1])
  with m show ?thesis by simp
qed

lemma open_walk:
  assumes acc: "fst (kastore_open c (Some g) ''r'' fl) = None"
  defines "N \<equiv> (ucast (load_u32 (drop 12 g)) :: size_t)"
  defines "t \<equiv> snd (kastore_open c (Some g) ''r'' fl)"
  shows "num_items t = N" and "file_size t = load_u64 (drop 16 g)"
    and "map numeric_fields (active_items t) = map numeric_fields (map (descriptor_at g) [0..<unat N])"
    and "follows_packing_walk N (map (descriptor_at g) [0..<unat N])"
    and "follows_packing_walk (num_items t) (active_items t)"
proof -
  define FS where "FS = load_u64 (drop 16 g)"
  define D where "D = map (descriptor_at (take (unat FS) g)) [0..<unat N]"
  define s where "s = kastore_zero\<lparr>mode := KAS_READ c, flags := fl, file_p := Some g\<rparr>"
  have f: "file_p s = Some g" by (simp add: s_def)
  have r: "fst (kastore_read c s) = None" using acc by (simp add: open_read s_def)
  have t: "t = snd (kastore_read c s)" by (simp add: t_def open_read s_def)
  note A = read_accepts [OF f, of c, folded N_def FS_def, folded D_def]
  from A(2) [OF r] have n: "num_items t = N" and fs: "file_size t = FS" and a: "active_items t = D"
    by (simp_all add: t)
  from A(1) r have d: "N = 0 \<or> descriptors_accepted FS N D" by blast
  have n32: "unat N < 2 ^ 32" unfolding N_def by (rule unat_ucast_32)
  have w: "follows_packing_walk N D"
  proof (cases "N = 0")
    case True
    then show ?thesis by (simp add: D_def follows_packing_walk_def)
  next
    case False
    with d have "descriptors_accepted FS N D" by simp
    then obtain o1 o2 where "check_keys (64 + N * 64) D = Some o1" "check_arrays o1 D = Some o2"
      by (auto simp add: descriptors_accepted_def split: option.splits)
    from walk_of_checks [OF this] show ?thesis by blast
  qed
  have e: "map numeric_fields D = map numeric_fields (map (descriptor_at g) [0..<unat N])"
  proof (cases "N = 0")
    case True
    then show ?thesis by (simp add: D_def)
  next
    case False
    with d have "\<not> 64 + N * 64 > FS" by (simp add: descriptors_accepted_def)
    then have "64 + 64 * unat N \<le> unat FS"
      using unat_descriptors_end [OF n32] by (simp add: not_less word_le_nat_alt)
    then have "numeric_fields (descriptor_at (take (unat FS) g) j)
                 = numeric_fields (descriptor_at g j)" if "j < unat N" for j
      using that by (intro numeric_fields_descriptor_at_take) simp
    then show ?thesis by (simp add: D_def)
  qed
  show "num_items t = N" by (rule n)
  show "file_size t = load_u64 (drop 16 g)" using fs by (simp add: FS_def)
  show "map numeric_fields (active_items t) = map numeric_fields (map (descriptor_at g) [0..<unat N])"
    using e by (simp add: a)
  show "follows_packing_walk N (map (descriptor_at g) [0..<unat N])"
    using w follows_packing_walk_fields [OF e] by simp
  show "follows_packing_walk (num_items t) (active_items t)" using w by (simp add: n a)
qed

lemma close_file_size:
  assumes ok: "consts_ok c" and md: "mode self = KAS_WRITE c" and fil: "file_p self = Some []"
    and len: "unat (num_items self) \<le> length (items self)"
    and its: "\<forall>it\<in>set (active_items self). item_ok it"
    and sz: "packed_size (qsort_items (active_items self)) < 2 ^ 64"
  defines "w \<equiv> snd (kastore_write_file c self)"
  shows "fst (kastore_close c self) = None"
    and "follows_packing_walk (num_items self) (active_items w)"
    and "file_size w = walk_end (num_items self) (active_items w)"
    and "map_option length (fst (snd (snd (kastore_close c self)))) = Some (unat (file_size w))"
    and "map_option (\<lambda>f. load_u64 (drop 16 f)) (fst (snd (snd (kastore_close c self))))
           = Some (file_size w)"
proof -
  define S where "S = qsort_items (active_items self)"
  define off0 where "off0 = 64 + num_items self * 64"
  define o1 where "o1 = snd (pack_keys off0 S)"
  define fs where "fs = snd (pack_arrays o1 (fst (pack_keys off0 S)))"
  have len8: "length (KAS_MAGIC c) = 8" using ok by (simp add: consts_ok_def)
  then have magic: "8 \<le> length (KAS_MAGIC c)" by simp
  have nz: "\<forall>it\<in>set (active_items self). key_len it \<noteq> 0"
    using its by (simp add: item_ok_def)
  have Sfit: "\<forall>it\<in>set S. key_fits it \<and> array_fits it"
    using its item_ok_fits by (simp add: S_def)
  have lS: "length S = unat (num_items self)"
    using len by (simp add: S_def length_active_items)
  then have nS: "(of_nat (length S) :: size_t) = num_items self" by simp
  have szS: "packed_size S < 2 ^ 64" using sz by (simp add: S_def)
  note W = write_file_image [OF magic fil len nz, folded S_def w_def,
      folded off0_def, folded o1_def, folded fs_def]
  note C = close_writes_image [OF magic md fil len nz, folded S_def]
  note L = file_image_layout [OF magic Sfit szS, unfolded nS, folded off0_def,
      folded o1_def, folded fs_def]
  from W have aw: "active_items w = packed S" and fw: "file_size w = fs" by simp_all
  have P: "packed S = fst (pack_arrays o1 (fst (pack_keys off0 S)))"
    by (simp add: packed_def nS off0_def o1_def)
  have k: "check_keys (64 + num_items self * 64) (packed S) = Some o1"
    unfolding P using check_keys_pack_keys [of off0 S] by (simp add: o1_def off0_def)
  have a: "check_arrays o1 (packed S) = Some fs"
    unfolding P fs_def by (rule check_arrays_pack_arrays)
  note Wk = walk_of_checks [OF k a]
  show "fst (kastore_close c self) = None" using C by blast
  show "follows_packing_walk (num_items self) (active_items w)" using Wk by (simp add: aw)
  show "file_size w = walk_end (num_items self) (active_items w)" using Wk by (simp add: aw fw)
  have f: "fst (snd (snd (kastore_close c self))) = Some (file_image c S)" using C by blast
  show "map_option length (fst (snd (snd (kastore_close c self)))) = Some (unat (file_size w))"
    using L(3) L(4) by (simp add: f fw)
  have "load_u64 (drop 16 (header_image c (num_items self) fs @ rest)) = fs" for rest
    using len8 by (simp add: header_image_def)
  then have "load_u64 (drop 16 (file_image c S)) = fs" by (simp only: L(5))
  then show "map_option (\<lambda>f. load_u64 (drop 16 f)) (fst (snd (snd (kastore_close c self))))
           = Some (file_size w)"
    by (simp add: f fw)
qed


lemma puts_store_ready:
  fixes disk :: "byte list option" and fl :: int
  assumes ok: "consts_ok c" and calls: "\<forall>p\<in>set ps. call_ok p"
    and dst: "distinct (map fst ps)" and n32: "length ps < 2 ^ 32"
    and room: "calls_room ps < 2 ^ 64"
  defines "s1 \<equiv> snd (put_all (snd (kastore_open c disk ''w'' fl)) ps)"
  shows "mode s1 = KAS_WRITE c" and "file_p s1 = Some []"
    and "unat (num_items s1) \<le> length (items s1)"
    and "active_items s1 = map item_of_call ps"
    and "\<forall>it\<in>set (active_items s1). item_ok it"
    and "packed_size (qsort_items (active_items s1)) < 2 ^ 64"
proof -
  note p = puts_on_new_store [OF ok calls dst n32, of disk fl, folded s1_def]
  show "mode s1 = KAS_WRITE c" and "file_p s1 = Some []"
    and "unat (num_items s1) \<le> length (items s1)"
    and "active_items s1 = map item_of_call ps"
    by (rule p(2) p(3) p(4) p(5))+
  show "\<forall>it\<in>set (active_items s1). item_ok it"
    using calls call_ok_item(1) by (auto simp: p(5))
  have "packed_size (qsort_items (map item_of_call ps))
          \<le> 64 + sum_list (map (\<lambda>it. 64 + unat (key_len it) + 8
                                  + unat (array_len it) * unat (type_size (type it)))
                               (qsort_items (map item_of_call ps)))"
    by (rule packed_size_le)
  also have "\<dots> = calls_room ps"
    using calls_room_items [OF calls] by (simp only: sum_list_qsort_items)
  finally show "packed_size (qsort_items (active_items s1)) < 2 ^ 64"
    using room by (simp add: p(5))
qed

text \<open>
  C2. The packer, on every store: the offsets that \<^verbatim>\<open>kastore_pack_items\<close> records follow
  the packing walk (the first key starts at \<open>64 + 64 * num_items\<close>, each further key
  where the one before ends, each array at the running offset rounded up by
  \<open>align_up\<close>, so that every \<open>array_start\<close> is a multiple of 8), and \<open>file_size\<close>
  is the offset where the walk ends. A store in write mode whose items are as put
  leaves them and whose file fits in \<open>2\<^sup>6\<^sup>4\<close> bytes: close succeeds, the store that it
  flushes carries these offsets, and the file that it writes has exactly \<open>file_size\<close>
  bytes and records \<open>file_size\<close> in its header. Conversely, when a read-mode open of a
  file \<open>g\<close> succeeds, the descriptors of \<open>g\<close> (as many as the header counts) follow
  the packing walk, and so do the items of the store, whose offsets and lengths are
  those of the descriptors.
\<close>

theorem packing_walk_written_and_checked:
  fixes fl :: int and g :: "byte list"
  assumes ok: "consts_ok c" and md: "mode self = KAS_WRITE c" and fil: "file_p self = Some []"
    and len: "unat (num_items self) \<le> length (items self)"
    and its: "\<forall>it\<in>set (active_items self). item_ok it"
    and sz: "packed_size (qsort_items (active_items self)) < 2 ^ 64"
  defines "w \<equiv> snd (kastore_write_file c self)"
  defines "N \<equiv> (ucast (load_u32 (drop 12 g)) :: size_t)"
  defines "t \<equiv> snd (kastore_open c (Some g) ''r'' fl)"
  shows "follows_packing_walk (num_items p) (active_items (snd (kastore_pack_items p))) \<and>
         file_size (snd (kastore_pack_items p))
           = walk_end (num_items p) (active_items (snd (kastore_pack_items p))) \<and>
         fst (kastore_close c self) = None \<and>
         follows_packing_walk (num_items self) (active_items w) \<and>
         file_size w = walk_end (num_items self) (active_items w) \<and>
         map_option length (fst (snd (snd (kastore_close c self)))) = Some (unat (file_size w)) \<and>
         map_option (\<lambda>f. load_u64 (drop 16 f)) (fst (snd (snd (kastore_close c self))))
           = Some (file_size w) \<and>
         (fst (kastore_open c (Some g) ''r'' fl) = None \<longrightarrow>
            num_items t = N \<and>
            map numeric_fields (active_items t)
              = map numeric_fields (map (descriptor_at g) [0..<unat N]) \<and>
            follows_packing_walk N (map (descriptor_at g) [0..<unat N]) \<and>
            follows_packing_walk (num_items t) (active_items t))"
proof -
  note P = pack_items_walk [of p]
  note C = close_file_size [OF ok md fil len its sz, folded w_def]
  have R: "num_items t = N \<and>
            map numeric_fields (active_items t)
              = map numeric_fields (map (descriptor_at g) [0..<unat N]) \<and>
            follows_packing_walk N (map (descriptor_at g) [0..<unat N]) \<and>
            follows_packing_walk (num_items t) (active_items t)"
    if acc: "fst (kastore_open c (Some g) ''r'' fl) = None"
    using open_walk [OF acc, folded N_def t_def] by blast
  from P C R show ?thesis by blast
qed

theorem packing_walk_written_and_checked_witness:
  "consts_ok example_consts \<and>
   mode (snd (put_all (snd (kastore_open example_consts None ''w'' 0)) example_calls))
     = KAS_WRITE example_consts \<and>
   file_p (snd (put_all (snd (kastore_open example_consts None ''w'' 0)) example_calls))
     = Some [] \<and>
   list_all item_ok
     (active_items (snd (put_all (snd (kastore_open example_consts None ''w'' 0)) example_calls))) \<and>
   map_option length
     (fst (snd (snd (kastore_close example_consts
        (snd (put_all (snd (kastore_open example_consts None ''w'' 0)) example_calls))))))
     = Some (unat (file_size (snd (kastore_write_file example_consts
        (snd (put_all (snd (kastore_open example_consts None ''w'' 0)) example_calls)))))) \<and>
   fst (kastore_open example_consts (Some unsorted_file) ''r'' 0) = None \<and>
   follows_packing_walk 2 (map (descriptor_at unsorted_file) [0..<2])"
proof -
  let ?S = "snd (put_all (snd (kastore_open example_consts None ''w'' 0)) example_calls)"
  have ok: "consts_ok example_consts"
    by (simp add: consts_ok_def example_consts_def)
  have calls: "\<forall>p\<in>set example_calls. call_ok p"
    by (simp add: example_calls_def call_ok_def type_size_def)
  have dst: "distinct (map fst example_calls)" by (simp add: example_calls_def)
  have n32: "length example_calls < 2 ^ 32" by (simp add: example_calls_def)
  have room: "calls_room example_calls < 2 ^ 64" by (simp add: example_calls_def calls_room_def)
  note s = puts_store_ready [OF ok calls dst n32 room, of None 0]
  have acc: "fst (kastore_open example_consts (Some unsorted_file) ''r'' 0) = None"
    by (simp add: eval_simps)
  have n: "(ucast (load_u32 (drop 12 unsorted_file)) :: size_t) = 2"
    by (simp add: eval_simps)
  note T = packing_walk_written_and_checked [OF ok s(1) s(2) s(3) s(5) s(6),
      of kastore_zero unsorted_file 0]
  from T acc have "follows_packing_walk 2 (map (descriptor_at unsorted_file) [0..<2])"
    by (simp add: n)
  moreover from T have "map_option length (fst (snd (snd (kastore_close example_consts ?S))))
     = Some (unat (file_size (snd (kastore_write_file example_consts ?S))))" by blast
  ultimately show ?thesis using ok s(1) s(2) s(5) acc by (simp add: list_all_iff)
qed

section \<open>Damaged files\<close>

lemma accepted_file:
  assumes acc: "fst (kastore_open c (Some f) ''r'' fl) = None"
  defines "N \<equiv> (ucast (load_u32 (drop 12 f)) :: size_t)"
  defines "FS \<equiv> load_u64 (drop 16 f)"
  shows "64 \<le> length f" and "strncmp (take 64 f) (KAS_MAGIC c) 8 = 0"
    and "uint (load_u16 (drop 8 f)) = KAS_FILE_VERSION_MAJOR c" and "64 \<le> FS"
    and "N = 0 \<or> descriptors_accepted FS N (map (descriptor_at (take (unat FS) f)) [0..<unat N])"
proof -
  define s where "s = kastore_zero\<lparr>mode := KAS_READ c, flags := fl, file_p := Some f\<rparr>"
  have f: "file_p s = Some f" by (simp add: s_def)
  have r: "fst (kastore_read c s) = None" using acc by (simp add: open_read s_def)
  note A = read_accepts(1) [OF f, of c, folded N_def FS_def, THEN iffD1, OF r]
  from A show "64 \<le> length f" and "strncmp (take 64 f) (KAS_MAGIC c) 8 = 0"
    and "uint (load_u16 (drop 8 f)) = KAS_FILE_VERSION_MAJOR c" and "64 \<le> FS"
    and "N = 0 \<or> descriptors_accepted FS N (map (descriptor_at (take (unat FS) f)) [0..<unat N])"
    by blast+
qed

lemma open_header_error:
  assumes "fst (kastore_read_header c
                  (kastore_zero\<lparr>mode := KAS_READ c, flags := fl, file_p := Some g\<rparr>)) = Some e"
  shows "fst (kastore_open c (Some g) ''r'' fl) = Some e"
  using read_header_error [OF assms] by (simp add: open_read)

lemma header_fields_cong:
  assumes "take 64 g = take 64 f"
  shows "load_u16 (drop 8 g) = load_u16 (drop 8 f)" and "load_u16 (drop 10 g) = load_u16 (drop 10 f)"
    and "load_u32 (drop 12 g) = load_u32 (drop 12 f)" and "load_u64 (drop 16 g) = load_u64 (drop 16 f)"
  using load_header_fields [of g, symmetric] load_header_fields [of f]
    load_u64_header [of g, symmetric] load_u64_header [of f]
  by (simp_all only: assms)

lemma truncated_file_rejected:
  assumes acc: "fst (kastore_open c (Some f) ''r'' fl) = None"
    and exact: "unat (load_u64 (drop 16 f)) = length f"
    and n: "n < length f"
  shows "fst (kastore_open c (Some (take n f)) ''r'' fl') = Some KAS_ERR_BAD_FILE_FORMAT"
proof (cases "n < 64")
  case True
  define s where "s = kastore_zero\<lparr>mode := KAS_READ c, flags := fl', file_p := Some (take n f)\<rparr>"
  have f: "file_p s = Some (take n f)" by (simp add: s_def)
  have "length (take n f) < 64" using True by simp
  from read_header_cases(1) [OF f this, of c] show ?thesis
    unfolding s_def by (rule open_header_error)
next
  case False
  define g where "g = take n f"
  define s where "s = kastore_zero\<lparr>mode := KAS_READ c, flags := fl', file_p := Some g\<rparr>"
  have f: "file_p s = Some g" by (simp add: s_def)
  have lg: "length g = n" "64 \<le> length g" using False n by (simp_all add: g_def)
  have tk: "take 64 g = take 64 f" using False by (simp add: g_def min_def)
  note F = accepted_file [OF acc]
  note hf = header_fields_cong [OF tk]
  obtain h where h: "kastore_read_header c s = (None, h)"
    using read_header_cases(6) [OF f lg(2), of c] F(2,3,4) by (simp add: tk hf)
  have hp: "file_p h = Some g" and hs: "file_size h = load_u64 (drop 16 f)"
    using read_header_success(4) [OF h f] read_header_success(2) [OF h f] by (simp_all add: hf)
  have short: "length g < unat (file_size h)" using n exact by (simp add: hs lg)
  note b = buffer_short_file(1,2) [OF hp short]
  have "fst (kastore_read c s) = Some KAS_ERR_BAD_FILE_FORMAT"
    using b by (cases "kastore_mmap_file h"; cases "kastore_read_file h")
      (simp add: kastore_read_def h)
  then show ?thesis by (simp add: open_read s_def g_def)
qed

lemma changed_magic_rejected:
  assumes ok: "consts_ok c"
    and acc: "fst (kastore_open c (Some f) ''r'' fl) = None"
    and i: "i < 8" and b: "b \<noteq> f ! i"
  shows "fst (kastore_open c (Some (f[i := b])) ''r'' fl') = Some KAS_ERR_BAD_FILE_FORMAT"
proof -
  define g where "g = f[i := b]"
  define s where "s = kastore_zero\<lparr>mode := KAS_READ c, flags := fl', file_p := Some g\<rparr>"
  have f: "file_p s = Some g" by (simp add: s_def)
  note F = accepted_file [OF acc]
  from ok have len: "length (KAS_MAGIC c) = 8" and nz: "list_all (\<lambda>b. b \<noteq> 0) (KAS_MAGIC c)"
    by (simp_all add: consts_ok_def)
  have lg: "64 \<le> length g" using F(1) by (simp add: g_def)
  have m: "take 8 (take 64 f) = KAS_MAGIC c"
    using strncmp_eq_iff [OF nz, of "take 64 f"] F(2) by (simp add: len)
  have "take 8 (take 64 g) ! i \<noteq> take 8 (take 64 f) ! i"
    using i b F(1) by (simp add: g_def)
  then have "take 8 (take 64 g) \<noteq> KAS_MAGIC c" using m by metis
  then have "strncmp (take 64 g) (KAS_MAGIC c) 8 \<noteq> 0"
    using strncmp_eq_iff [OF nz, of "take 64 g"] by (simp add: len)
  from read_header_cases(2) [OF f lg this] show ?thesis
    unfolding s_def g_def by (rule open_header_error)
qed

lemma changed_major_rejected:
  assumes ok: "consts_ok c"
    and acc: "fst (kastore_open c (Some f) ''r'' fl) = None"
    and v: "v < 65536"
  defines "g \<equiv> take 8 f @ le_encode 2 v @ drop 10 f"
  shows "KAS_FILE_VERSION_MAJOR c < int v
           \<Longrightarrow> fst (kastore_open c (Some g) ''r'' fl') = Some KAS_ERR_VERSION_TOO_NEW"
    and "int v < KAS_FILE_VERSION_MAJOR c
           \<Longrightarrow> fst (kastore_open c (Some g) ''r'' fl') = Some KAS_ERR_VERSION_TOO_OLD"
proof -
  define s where "s = kastore_zero\<lparr>mode := KAS_READ c, flags := fl', file_p := Some g\<rparr>"
  have f: "file_p s = Some g" by (simp add: s_def)
  note F = accepted_file [OF acc]
  have lg: "64 \<le> length g" using F(1) by (simp add: g_def)
  have t8: "take 8 g = take 8 f" using F(1) by (simp add: g_def)
  from ok have len: "length (KAS_MAGIC c) = 8" and nz: "list_all (\<lambda>b. b \<noteq> 0) (KAS_MAGIC c)"
    by (simp_all add: consts_ok_def)
  have m: "strncmp (take 64 g) (KAS_MAGIC c) 8 = 0"
    using strncmp_eq_iff [OF nz, of "take 64 f"] strncmp_eq_iff [OF nz, of "take 64 g"] F(2)
    by (simp add: len t8)
  have "load_u16 (drop 8 g) = of_nat v"
    using F(1) v by (simp add: g_def load_u16_def le_decode_encode)
  then have u: "uint (load_u16 (drop 8 g)) = int v"
    using v by (simp add: unsigned_of_nat take_bit_nat_eq_self)
  show "fst (kastore_open c (Some g) ''r'' fl') = Some KAS_ERR_VERSION_TOO_NEW"
    if "KAS_FILE_VERSION_MAJOR c < int v"
    using read_header_cases(4) [OF f lg m] that unfolding s_def u by (intro open_header_error) simp
  show "fst (kastore_open c (Some g) ''r'' fl') = Some KAS_ERR_VERSION_TOO_OLD"
    if "int v < KAS_FILE_VERSION_MAJOR c"
    using read_header_cases(3) [OF f lg m] that unfolding s_def u by (intro open_header_error) simp
qed

lemma changed_minor_accepted:
  fixes v :: nat
  assumes ok: "consts_ok c"
    and acc: "fst (kastore_open c (Some f) ''r'' fl) = None"
    and exact: "unat (load_u64 (drop 16 f)) = length f"
  defines "g \<equiv> take 10 f @ le_encode 2 v @ drop 12 f"
  shows "fst (kastore_open c (Some g) ''r'' fl') = None"
proof -
  define s where "s = kastore_zero\<lparr>mode := KAS_READ c, flags := fl', file_p := Some g\<rparr>"
  define N where "N = (ucast (load_u32 (drop 12 f)) :: size_t)"
  define FS where "FS = load_u64 (drop 16 f)"
  have f: "file_p s = Some g" by (simp add: s_def)
  note F = accepted_file [OF acc, folded N_def FS_def]
  have lg: "length g = length f" using F(1) by (simp add: g_def)
  have t8: "take 8 g = take 8 f" using F(1) by (simp add: g_def)
  from ok have len: "length (KAS_MAGIC c) = 8" and nz: "list_all (\<lambda>b. b \<noteq> 0) (KAS_MAGIC c)"
    by (simp_all add: consts_ok_def)
  have m: "strncmp (take 64 g) (KAS_MAGIC c) 8 = 0"
    using strncmp_eq_iff [OF nz, of "take 64 f"] strncmp_eq_iff [OF nz, of "take 64 g"] F(2)
    by (simp add: len t8)
  have d12: "drop 12 g = drop 12 f" and d16: "drop 16 g = drop 16 f"
    and d64: "drop 64 g = drop 64 f" and t10: "take 10 g = take 10 f"
    using F(1) by (simp_all add: g_def)
  have "take 2 (drop 8 g) = drop 8 (take 10 g)" by (simp add: drop_take)
  also have "\<dots> = take 2 (drop 8 f)" by (simp add: t10 drop_take)
  finally have maj: "load_u16 (drop 8 g) = load_u16 (drop 8 f)" by (simp add: load_u16_def)
  have n: "load_u32 (drop 12 g) = load_u32 (drop 12 f)" by (simp only: d12)
  have fs: "load_u64 (drop 16 g) = FS" by (simp only: d16 FS_def)
  have "of_nat (unat FS) = FS" by simp
  then have fsw: "FS = of_nat (length f)" using exact by (simp add: FS_def)
  have ule: "unat FS \<le> length f" using exact by (simp add: FS_def)
  have gate: "(if mmap_gate c s then FS = of_nat (length g) else unat FS \<le> length g)"
    using fsw ule by (simp only: lg if_cancel split: if_splits) simp
  have "drop 64 (take (unat FS) g) = drop 64 (take (unat FS) f)"
    by (simp only: drop_take d64)
  then have "numeric_fields (descriptor_at (take (unat FS) g) j)
               = numeric_fields (descriptor_at (take (unat FS) f) j)" for j
    by (rule numeric_fields_descriptor_at_drop)
  then have "map numeric_fields (map (descriptor_at (take (unat FS) g)) [0..<unat N])
               = map numeric_fields (map (descriptor_at (take (unat FS) f)) [0..<unat N])"
    by simp
  from descriptors_accepted_fields [OF this] F(5)
  have d: "N = 0 \<or> descriptors_accepted FS N (map (descriptor_at (take (unat FS) g)) [0..<unat N])"
    by simp
  have mj: "uint (load_u16 (drop 8 g)) = KAS_FILE_VERSION_MAJOR c" using F(3) by (simp only: maj)
  have l64: "64 \<le> length g" using F(1) by (simp only: lg)
  note RA = read_accepts(1) [OF f, of c, unfolded fs n, folded N_def]
  have "fst (kastore_read c s) = None"
    unfolding RA using l64 m mj F(4) gate d by (intro conjI)
  then show ?thesis by (simp add: open_read s_def)
qed

text \<open>
  C9. A valid file is one that a read-mode open accepts and that has exactly the
  \<open>file_size\<close> bytes of its header. For such a file \<open>f\<close>, accepted with the flags
  \<open>fl\<close>: opening the first \<open>n\<close> bytes of \<open>f\<close> with the same flags, for any \<open>n\<close> below
  the length, returns \<open>KAS_ERR_BAD_FILE_FORMAT\<close>; opening \<open>f\<close> with one of its first
  eight bytes replaced by another byte returns \<open>KAS_ERR_BAD_FILE_FORMAT\<close>, with any
  flags; opening \<open>f\<close> with the two bytes of the major version replaced by a greater
  number returns \<open>KAS_ERR_VERSION_TOO_NEW\<close> and by a smaller number
  \<open>KAS_ERR_VERSION_TOO_OLD\<close>, with any flags; and opening \<open>f\<close> with the two bytes of the
  minor version replaced by any number succeeds with the flags \<open>fl\<close>. The magic of
  \<^verbatim>\<open>kastore.h\<close> has eight bytes, none of them NUL, and the major version fits 16 bits
  (\<open>consts_ok\<close>). In the model no call of the operating system fails by itself, so the
  error of a truncated file is always the one of the file format. The truncated file
  and the file with another minor version are opened with the flags that \<open>f\<close> was
  accepted with: on the heap path they ask for a buffer of the same \<open>file_size\<close> bytes
  as the open of \<open>f\<close> did.
\<close>

theorem damaged_file_is_rejected:
  fixes fl fl' :: int and vnew vold vminor :: nat
  assumes ok: "consts_ok c"
    and acc: "fst (kastore_open c (Some f) ''r'' fl) = None"
    and exact: "unat (file_size (snd (kastore_open c (Some f) ''r'' fl))) = length f"
  shows "(n < length f \<longrightarrow>
            fst (kastore_open c (Some (take n f)) ''r'' fl) = Some KAS_ERR_BAD_FILE_FORMAT) \<and>
         (i < 8 \<and> b \<noteq> f ! i \<longrightarrow>
            fst (kastore_open c (Some (f[i := b])) ''r'' fl') = Some KAS_ERR_BAD_FILE_FORMAT) \<and>
         (vnew < 65536 \<and> KAS_FILE_VERSION_MAJOR c < int vnew \<longrightarrow>
            fst (kastore_open c (Some (take 8 f @ le_encode 2 vnew @ drop 10 f)) ''r'' fl')
              = Some KAS_ERR_VERSION_TOO_NEW) \<and>
         (int vold < KAS_FILE_VERSION_MAJOR c \<longrightarrow>
            fst (kastore_open c (Some (take 8 f @ le_encode 2 vold @ drop 10 f)) ''r'' fl')
              = Some KAS_ERR_VERSION_TOO_OLD) \<and>
         fst (kastore_open c (Some (take 10 f @ le_encode 2 vminor @ drop 12 f)) ''r'' fl) = None"
proof -
  have ex: "unat (load_u64 (drop 16 f)) = length f"
    using exact open_walk(2) [OF acc] by simp
  have "KAS_FILE_VERSION_MAJOR c < 65536" using ok by (simp add: consts_ok_def)
  then have vo: "vold < 65536" if "int vold < KAS_FILE_VERSION_MAJOR c" using that by simp
  show ?thesis
    using truncated_file_rejected [OF acc ex, of n fl]
      changed_magic_rejected [OF ok acc, of i b fl']
      changed_major_rejected(1) [OF ok acc, of vnew fl']
      changed_major_rejected(2) [OF ok acc vo, of fl']
      changed_minor_accepted [OF ok acc ex, of vminor fl]
    by blast
qed

theorem damaged_file_is_rejected_witness:
  "consts_ok example_consts \<and>
   fst (kastore_open example_consts (Some example_file) ''r'' 0) = None \<and>
   fst (kastore_open example_consts (Some example_file) ''r'' 1) = None \<and>
   unat (file_size (snd (kastore_open example_consts (Some example_file) ''r'' 0)))
     = length example_file \<and>
   unat (file_size (snd (kastore_open example_consts (Some example_file) ''r'' 1)))
     = length example_file \<and>
   length example_file = 204 \<and> example_file ! 3 = 0x53 \<and> KAS_FILE_VERSION_MAJOR example_consts = 1 \<and>
   fst (kastore_open example_consts (Some (take 203 example_file)) ''r'' 0)
     = Some KAS_ERR_BAD_FILE_FORMAT \<and>
   fst (kastore_open example_consts (Some (take 203 example_file)) ''r'' 1)
     = Some KAS_ERR_BAD_FILE_FORMAT \<and>
   fst (kastore_open example_consts (Some (example_file[3 := 0x73])) ''r'' 0)
     = Some KAS_ERR_BAD_FILE_FORMAT \<and>
   fst (kastore_open example_consts
          (Some (take 8 example_file @ le_encode 2 2 @ drop 10 example_file)) ''r'' 0)
     = Some KAS_ERR_VERSION_TOO_NEW \<and>
   fst (kastore_open example_consts
          (Some (take 8 example_file @ le_encode 2 0 @ drop 10 example_file)) ''r'' 0)
     = Some KAS_ERR_VERSION_TOO_OLD \<and>
   fst (kastore_open example_consts
          (Some (take 10 example_file @ le_encode 2 7 @ drop 12 example_file)) ''r'' 0) = None \<and>
   fst (kastore_open example_consts
          (Some (take 10 example_file @ le_encode 2 7 @ drop 12 example_file)) ''r'' 1) = None"
proof -
  have ok: "consts_ok example_consts"
    by (simp add: consts_ok_def example_consts_def)
  have acc0: "fst (kastore_open example_consts (Some example_file) ''r'' 0) = None"
    by (simp add: eval_simps)
  have acc1: "fst (kastore_open example_consts (Some example_file) ''r'' 1) = None"
    by (simp add: eval_simps)
  have l: "length example_file = 204" by (simp add: eval_simps)
  have exact0: "unat (file_size (snd (kastore_open example_consts (Some example_file) ''r'' 0)))
                 = length example_file"
    unfolding l by (simp add: eval_simps)
  have exact1: "unat (file_size (snd (kastore_open example_consts (Some example_file) ''r'' 1)))
                 = length example_file"
    unfolding l by (simp add: eval_simps)
  have b3: "example_file ! 3 = 0x53" by (simp add: eval_simps)
  have mj: "KAS_FILE_VERSION_MAJOR example_consts = 1" by (simp add: example_consts_def)
  note T0 = damaged_file_is_rejected [OF ok acc0 exact0, where n = 203 and fl' = 0 and i = 3
      and b = "0x73" and vnew = 2 and vold = 0 and vminor = 7]
  note T1 = damaged_file_is_rejected [OF ok acc1 exact1, where n = 203 and fl' = 0 and i = 3
      and b = "0x73" and vnew = 2 and vold = 0 and vminor = 7]
  from T0 T1 ok acc0 acc1 exact0 exact1 l b3 mj show ?thesis by simp
qed

section \<open>Closing a store\<close>

text \<open>
  C10. Closing a freshly zeroed store, or closing again a store that a previous close
  has returned, writes no file, closes no stream, releases nothing, returns success and
  leaves the store zeroed; this holds whatever the constants of the header are.
\<close>

theorem close_zeroed_is_noop:
  "kastore_close c kastore_zero = (None, kastore_zero, None, []) \<and>
   kastore_close c (fst (snd (kastore_close c self))) = (None, kastore_zero, None, [])"
proof -
  have zero: "kastore_close c kastore_zero = (None, kastore_zero, None, [])"
    by (simp add: kastore_close_def kastore_zero_def)
  have "fst (snd (kastore_close c self)) = kastore_zero"
    by (simp add: kastore_close_def Let_def split_beta)
  with zero show ?thesis by simp
qed

section \<open>Bounds of the descriptors\<close>

text \<open>
  C3. The claim asks that a descriptor whose key or array, computed without overflow,
  ends after \<open>file_size\<close> be rejected. The source adds and multiplies in 64 bits:
  \<open>overflow_file\<close> has 128 bytes and declares \<open>file_size = 128\<close>; its only descriptor
  has \<open>key_start = 128\<close> and \<open>key_len = 2\<^sup>6\<^sup>4 - 120\<close>, so the key ends far after the
  file, while the 64-bit sum is 8. The file passes the bounds checks and the packing
  walk, and is opened with success on both paths.
\<close>

theorem overflowing_descriptor_is_accepted:
  "length overflow_file = 128 \<and>
   fst (kastore_open example_consts (Some overflow_file) ''r'' 0) = None \<and>
   fst (kastore_open example_consts (Some overflow_file) ''r'' 1) = None \<and>
   map (\<lambda>it. (unat (key_start it), unat (key_len it)))
     (active_items (snd (kastore_open example_consts (Some overflow_file) ''r'' 0)))
     = [(128, 2 ^ 64 - 120)] \<and>
   unat (file_size (snd (kastore_open example_consts (Some overflow_file) ''r'' 0))) = 128"
  by (simp add: eval_simps)

section \<open>The choice between mapping and reading\<close>

text \<open>
  C4. The claim asks that the file be mapped exactly when the bit \<^verbatim>\<open>KAS_NO_MMAP\<close> is
  not set in the flags. The gate of the source maps exactly when the flags are 0 as a
  whole (and the constant is odd). With \<^verbatim>\<open>KAS_NO_MMAP = 1\<close> and \<open>flags = 2\<close> the bit is
  not set and the file is not mapped: the file with a trailing byte, which the mapping
  path rejects, is accepted.
\<close>

theorem mmap_gate_tests_whole_flags:
  "mmap_gate c self = (flags self = 0 \<and> odd (KAS_NO_MMAP c)) \<and>
   flags (kastore_zero\<lparr>flags := 2\<rparr>) AND KAS_NO_MMAP example_consts = 0 \<and>
   \<not> mmap_gate example_consts (kastore_zero\<lparr>flags := 2\<rparr>) \<and>
   fst (kastore_open example_consts (Some trailing_byte_file) ''r'' 0)
     = Some KAS_ERR_BAD_FILE_FORMAT \<and>
   fst (kastore_open example_consts (Some trailing_byte_file) ''r'' 2) = None"
proof -
  have a: "mmap_gate c self = (flags self = 0 \<and> odd (KAS_NO_MMAP c))"
    by (simp add: mmap_gate_def and_one_eq one_and_eq mod_2_eq_odd)
  have b: "flags (kastore_zero\<lparr>flags := 2\<rparr>) AND KAS_NO_MMAP example_consts = 0"
    by (simp add: example_consts_def)
  have c: "\<not> mmap_gate example_consts (kastore_zero\<lparr>flags := 2\<rparr>)"
    by (simp add: mmap_gate_def)
  have d: "fst (kastore_open example_consts (Some trailing_byte_file) ''r'' 0)
     = Some KAS_ERR_BAD_FILE_FORMAT"
    by (simp add: eval_simps)
  have e: "fst (kastore_open example_consts (Some trailing_byte_file) ''r'' 2) = None"
    by (simp add: eval_simps)
  from a b c d e show ?thesis by blast
qed

end
